theory Spec2Isabelle
  imports Main "HOL-Library.Word" "HOL-Library.Char_ord" "HOL-Library.List_Lexorder"
begin

section \<open>Constants and strings\<close>

text \<open>
  The engine stores \<open>std::string\<close> keys and values. A \<open>std::string\<close> is a sequence of
  bytes, here a \<open>string\<close> (a list of \<open>char\<close>); \<open>operator<\<close> on \<open>std::string\<close> is the
  lexicographic order on unsigned bytes, which is the order that \<open>Char_ord\<close> and
  \<open>List_Lexorder\<close> give to \<open>string\<close>.

  \<open>database.h\<close>: \<open>#define MAX 4000000\<close> (here \<open>MAX_bytes\<close>), \<open>#define MIN_TH 4\<close>, \<open>#define NOFILTERS 3\<close>;
  \<open>database.cpp\<close>: \<open>string empty_string="", TOMBSTONE="\r\n"\<close>.
\<close>

definition MAX_bytes :: nat where
  "MAX_bytes = 4000000"

definition MIN_TH :: nat where
  "MIN_TH = 4"

definition NOFILTERS :: nat where
  "NOFILTERS = 3"

definition TOMBSTONE :: string where
  "TOMBSTONE = [CHR 0x0D, CHR 0x0A]"

section \<open>BloomFilter\<close>

text \<open>
  \<open>class BloomFilter\<close> has two fields: \<open>vector<hash<string>> filter\<close> (here \<open>filter'\<close>) and
  \<open>bitset<10000> bitArray\<close>. What \<open>std::hash<string>\<close> computes is left to the C++
  library, so a hash functor is any function from strings to \<open>size_t\<close>, a 64-bit word.
  The bit array is the function that tells whether a position is set; only positions
  below 10000 are ever read or written, since every position is a remainder modulo
  \<open>bitArray.size()\<close>.
\<close>

record BloomFilter =
  filter' :: "(string \<Rightarrow> 64 word) list"
  bitArray :: "nat \<Rightarrow> bool"

text \<open>The constructor pushes \<open>NOFILTERS\<close> copies of the hash functor; the bitset starts cleared.\<close>

definition BloomFilter_new :: "(string \<Rightarrow> 64 word) \<Rightarrow> BloomFilter" where
  "BloomFilter_new h = \<lparr>filter' = replicate NOFILTERS h, bitArray = (\<lambda>_. False)\<rparr>"

text \<open>
  \<open>hash = (filter[i](key) + i) % bitArray.size()\<close>: the sum is taken in \<open>size_t\<close> and
  wraps around at \<open>2^64\<close> before the remainder.
\<close>

definition slot :: "BloomFilter \<Rightarrow> string \<Rightarrow> nat \<Rightarrow> nat" where
  "slot b key i = unat (((filter' b ! i) key + of_nat i) mod 10000)"

definition clear :: "BloomFilter \<Rightarrow> BloomFilter" where
  "clear b = b\<lparr>bitArray := (\<lambda>_. False)\<rparr>"

text \<open>\<open>add\<close>: for \<open>i\<close> from 0 below \<open>filter.size()\<close>, set bit \<open>slot i\<close>.\<close>

definition add :: "string \<Rightarrow> BloomFilter \<Rightarrow> BloomFilter" where
  "add key b =
     b\<lparr>bitArray := fold (\<lambda>i bits. bits(slot b key i := True)) [0..<length (filter' b)] (bitArray b)\<rparr>"

text \<open>
  \<open>contains\<close>: for \<open>i\<close> from 0 below \<open>filter.size()\<close>, return 0 at the first bit that is
  not set; return 1 after the loop.
\<close>

fun contains_loop :: "BloomFilter \<Rightarrow> string \<Rightarrow> nat list \<Rightarrow> bool" where
  "contains_loop b key [] = True"
| "contains_loop b key (i # is) =
     (if \<not> bitArray b (slot b key i) then False else contains_loop b key is)"

definition contains :: "string \<Rightarrow> BloomFilter \<Rightarrow> bool" where
  "contains key b = contains_loop b key [0..<length (filter' b)]"

section \<open>The memtable\<close>

text \<open>
  The memtable is a \<open>std::map<string, string>\<close>: an ordered dictionary with unique keys,
  iterated in increasing key order. It is modelled by the list of its entries in
  iteration order. \<open>m[key] = value\<close> overwrites the entry of \<open>key\<close> or inserts one at its
  place in the order; \<open>m.find(key)\<close> is \<open>map_of\<close>; \<open>m.size()\<close> is \<open>length\<close>;
  \<open>m.clear()\<close> leaves \<open>[]\<close>.
\<close>

type_synonym memtable = "(string \<times> string) list"

fun map_assign :: "string \<Rightarrow> string \<Rightarrow> memtable \<Rightarrow> memtable" where
  "map_assign key val [] = [(key, val)]"
| "map_assign key val ((k, v) # m) =
     (if key < k then (key, val) # (k, v) # m
      else if key = k then (key, val) # m
      else (k, v) # map_assign key val m)"

section \<open>Files\<close>

text \<open>
  The write-ahead logs are the files \<open>WAL.bin\<close>, \<open>WAL_temp.bin\<close> and \<open>WAL_temp1.bin\<close> of
  \<open>./Database\<close>. \<open>append_to_WAL\<close> writes a record as \<open>u64 klen, key, u64 vlen, value\<close>
  and \<open>initializer_helper\<close> reads it back field by field, so a log is modelled by the
  sequence of the (key, value) records written to it.

  A sorted run of tier \<open>i\<close> is the file pair \<open>Tier_i/j.bin\<close> and \<open>Tier_i/metadataj.bin\<close>:
  the bytes of the data file and the \<open>u64\<close> entries of the metadata file. While it is
  written the pair is called \<open>temp.bin\<close> and \<open>temp1.bin\<close>.
\<close>

datatype path = WAL_bin | WAL_temp_bin | WAL_temp1_bin

record sstable =
  bin :: string
  metadata :: "nat list"

datatype file_name = Run nat | Temp

text \<open>
  What stops a call: a failed \<open>assert\<close>, the exception \<open>std::length_error\<close>, and the use
  of a variable that was never assigned.
\<close>

datatype error = AssertFailed | LengthError | Uninitialised

section \<open>The Database object\<close>

text \<open>
  The fields of \<open>class Database\<close> that the operations below use, and the files under
  \<open>./Database\<close>. \<open>database.cpp\<close> names the two memtables \<open>write_memtable\<close> (the one that
  receives writes) and \<open>read_memtable\<close> (the one \<open>FLUSH\<close> is writing to disk); the
  \<open>memtable\<close> of \<open>REPL::GET\<close> and \<open>REPL::SET\<close> is the table that receives writes, whose
  filter is \<open>filters[0][0]\<close>. \<open>wal\<close> is the output stream of the log: the file it is
  open on, if any. \<open>WAL\<close> is the path member that \<open>initializer_helper\<close> and \<open>FLUSH\<close> use.
  \<open>temp\<close> is the local filter of \<open>FLUSH\<close>, declared outside its loop. \<open>mem_size\<close> is a
  \<open>size_t\<close>; it is reset by every flush and grows by less than \<open>MAX\<close> per record, so it
  never wraps and is a natural number here.

  The semaphores are not part of the state: every operation below is one critical
  section, run from its lock to its unlock. A thread that waits is an operation that
  does not return (\<open>None\<close>).
\<close>

record Database =
  filters :: "BloomFilter list list"
  wal :: "path option"
  WAL :: path
  write_memtable :: memtable
  read_memtable :: memtable
  ifread_memtable :: bool
  levels_main :: "nat list"
  mem_size :: nat
  flushrunning :: bool
  temp :: BloomFilter
  logs :: "path \<Rightarrow> (string \<times> string) list option"
  tiers :: "nat \<Rightarrow> file_name \<Rightarrow> sstable option"

section \<open>Find and binary\_search\<close>

text \<open>
  \<open>binary_search\<close> reads the two files through \<open>ifstream\<close>s and never tests their state,
  so what a stream does after a read that came short is part of what the function does.
  A read that finds fewer bytes than it was asked for stores the ones it found and sets
  \<open>failbit\<close>; from then on \<open>seekg\<close> and \<open>read\<close> on that stream do nothing, and the buffers
  keep what they held.

  The integer conversions of the code: \<open>find_idx\<close> takes its argument as \<open>int\<close>
  (\<open>to_int\<close>), an offset passed to \<open>seekg\<close> is an \<open>off_type\<close>, a signed 64-bit integer
  (\<open>to_long_long\<close>), and the lengths \<open>idx[1] - idx[0]\<close> and \<open>idx[2] - idx[1]\<close> are differences
  of \<open>size_t\<close> (\<open>size_t_sub\<close>), which wrap around below zero.
\<close>

definition to_int :: "int \<Rightarrow> int" where
  "to_int m = (m + 2 ^ 31) mod 2 ^ 32 - 2 ^ 31"

definition to_long_long :: "nat \<Rightarrow> int" where
  "to_long_long n = (if n mod 2 ^ 64 < 2 ^ 63 then int (n mod 2 ^ 64) else int (n mod 2 ^ 64) - 2 ^ 64)"

definition size_t_sub :: "nat \<Rightarrow> nat \<Rightarrow> nat" where
  "size_t_sub a b = nat ((int a - int b) mod 2 ^ 64)"

text \<open>
  \<open>value.resize(n)\<close> keeps the first \<open>n\<close> bytes of the string and pads it with zero bytes
  up to the length \<open>n\<close>; it throws \<open>std::length_error\<close> when \<open>n\<close> is above \<open>max_size()\<close>, which
  is \<open>2^62 - 1\<close> for the \<open>std::string\<close> of libstdc++ on a 64-bit target. Memory is taken to
  suffice for every length below that.
\<close>

definition string_max_size :: nat where
  "string_max_size = 2 ^ 62 - 1"

definition resize :: "nat \<Rightarrow> string \<Rightarrow> error + string" where
  "resize n s =
     (if string_max_size < n then Inl LengthError
      else Inr (take n s @ replicate (n - length s) (CHR 0x00)))"

text \<open>
  An input stream on a file is its position and its \<open>failbit\<close>. \<open>seekg off\<close> is
  \<open>seekg(off, ios::beg)\<close>: a negative offset fails, an offset past the end of the file does
  not. \<open>read_bytes file n buf\<close> is \<open>read(&buf[0], n)\<close> on a buffer of \<open>n\<close> bytes.
\<close>

type_synonym istream = "nat \<times> bool"

definition seekg :: "int \<Rightarrow> istream \<Rightarrow> istream" where
  "seekg off s = (if snd s then s else if off < 0 then (fst s, True) else (nat off, False))"

definition read_bytes :: "string \<Rightarrow> nat \<Rightarrow> string \<Rightarrow> istream \<Rightarrow> string \<times> istream" where
  "read_bytes file n buf s =
     (if snd s then (buf, s)
      else (let got = take n (drop (fst s) file)
            in (got @ drop (length got) buf, (fst s + length got, length got < n))))"

text \<open>
  \<open>find_idx(mid)\<close>: \<open>metadata.seekg(2 * sizeof(size_t) * mid, ios::beg)\<close>, then a read of
  three entries into \<open>idx\<close>. The metadata file is written in whole \<open>u64\<close> entries, so a
  short read stores whole entries. The state is the vector \<open>idx\<close> and the \<open>failbit\<close> of the
  metadata stream; the position of that stream is set anew by every call.
\<close>

definition find_idx :: "nat list \<Rightarrow> int \<Rightarrow> nat list \<times> bool \<Rightarrow> nat list \<times> bool" where
  "find_idx meta mid st =
     (if snd st then st
      else if 16 * to_int mid < 0 then (fst st, True)
      else (let got = take 3 (drop (nat (2 * to_int mid)) meta)
            in (got @ drop (length got) (fst st), length got < 3)))"

text \<open>
  The loop \<open>while (lo <= hi)\<close> of \<open>binary_search\<close>, on \<open>long long\<close> bounds. \<open>st\<close> is \<open>idx\<close>
  with the state of the metadata stream, \<open>ds\<close> is the data stream \<open>In\<close>, and \<open>value\<close> is the
  string of the caller, into which every probed key is read. The result is the returned
  \<open>bool\<close> and the final \<open>value\<close>.
\<close>

function binary_search ::
  "string \<Rightarrow> nat list \<Rightarrow> int \<Rightarrow> int \<Rightarrow> string \<Rightarrow> nat list \<times> bool \<Rightarrow> istream \<Rightarrow> string \<Rightarrow> error + bool \<times> string" where
  "binary_search In meta lo hi key st ds value =
     (if lo \<le> hi then
        (let mid = (lo + hi) div 2;
             st' = find_idx meta mid st;
             idx = fst st';
             ds1 = seekg (to_long_long (idx ! 0)) ds
         in case resize (size_t_sub (idx ! 1) (idx ! 0)) value of
              Inl e \<Rightarrow> Inl e
            | Inr buf \<Rightarrow>
                (case read_bytes In (size_t_sub (idx ! 1) (idx ! 0)) buf ds1 of
                   (value1, ds2) \<Rightarrow>
                     if key < value1 then binary_search In meta lo (mid - 1) key st' ds2 value1
                     else if key = value1 then
                       (case resize (size_t_sub (idx ! 2) (idx ! 1)) value1 of
                          Inl e \<Rightarrow> Inl e
                        | Inr buf2 \<Rightarrow>
                            Inr (True, fst (read_bytes In (size_t_sub (idx ! 2) (idx ! 1)) buf2 ds2)))
                     else binary_search In meta (mid + 1) hi key st' ds2 value1))
      else Inr (False, value))"
  by pat_completeness auto
termination
  by (relation "measure (\<lambda>(In, meta, lo, hi, key, st, ds, value). nat (hi - lo + 1))") auto

declare binary_search.simps [simp del]

text \<open>
  \<open>Find(i, j, key, value)\<close>: \<open>assert(exists(File))\<close>; the number of entries is the last
  \<open>u64\<close> of the metadata file, read after \<open>seekg(-sizeof(size_t), ios::end)\<close>, and
  \<open>binary_search\<close> runs with \<open>lo = 0\<close> and \<open>hi = (long long)(entries) - 1\<close> on a vector \<open>idx\<close>
  of three zeros. On a metadata file without an entry that first read fails and
  \<open>entries\<close> is never assigned; the model stops there (\<open>Uninitialised\<close>).
\<close>

definition Find :: "nat \<Rightarrow> nat \<Rightarrow> string \<Rightarrow> string \<Rightarrow> Database \<Rightarrow> error + bool \<times> string" where
  "Find i j key value db =
     (case tiers db i (Run j) of
        None \<Rightarrow> Inl AssertFailed
      | Some f \<Rightarrow>
          if metadata f = [] then Inl Uninitialised
          else binary_search (bin f) (metadata f) 0 (to_long_long (last (metadata f)) - 1) key
                 ([0, 0, 0], False) (0, False) value)"

section \<open>REPL: GET, SET and DELETE\<close>

text \<open>
  The inner loop of \<open>GET\<close> over the files of tier \<open>i\<close>, \<open>for (j = levels_main[i]; j > 0; --j)\<close>.
  Its result is \<open>Returned r\<close> when \<open>GET\<close> returns \<open>r\<close> from inside the loop, and \<open>Missed value\<close>
  when the loop ends and \<open>GET\<close> goes on to the next tier with the string \<open>value\<close> as
  the calls of \<open>Find\<close> left it.
\<close>

datatype lookup = Returned "string option" | Missed string

fun GET_files :: "string \<Rightarrow> Database \<Rightarrow> nat \<Rightarrow> nat \<Rightarrow> string \<Rightarrow> error + lookup" where
  "GET_files key db i 0 value = Inr (Missed value)"
| "GET_files key db i (Suc j') value =
     (if contains key (filters db ! i ! j') then
        (case Find i (Suc j') key value db of
           Inl e \<Rightarrow> Inl e
         | Inr (res, value') \<Rightarrow>
             if res \<and> value' = TOMBSTONE then Inr (Returned None)
             else if res then Inr (Returned (Some value'))
             else GET_files key db i j' value')
      else GET_files key db i j' value)"

text \<open>The outer loop, \<open>for (i = 1; i < levels_main.size(); ++i)\<close>, over the list of its indices.\<close>

fun GET_tiers :: "string \<Rightarrow> Database \<Rightarrow> nat list \<Rightarrow> string \<Rightarrow> error + string option" where
  "GET_tiers key db [] value = Inr None"
| "GET_tiers key db (i # is) value =
     (case GET_files key db i (levels_main db ! i) value of
        Inl e \<Rightarrow> Inl e
      | Inr (Returned r) \<Rightarrow> Inr r
      | Inr (Missed value') \<Rightarrow> GET_tiers key db is value')"

text \<open>
  \<open>REPL::GET\<close> of \<open>REPL.cpp\<close>. The result \<open>Inr (Some v)\<close> is \<open>return true\<close> with \<open>value = v\<close>,
  and \<open>Inr None\<close> is \<open>return false\<close>; \<open>Inl\<close> is an exception or a failed assertion of \<open>Find\<close>.
  Both callers, the loop of \<open>main\<close> and the server, pass a newly constructed (empty) string
  as \<open>value\<close>. This \<open>GET\<close> is the reader of the class that has one table, \<open>memtable\<close>: it reads
  the table that receives the writes and its filter, and then the tiers.
\<close>

definition GET :: "string \<Rightarrow> Database \<Rightarrow> error + string option" where
  "GET key db =
     (if contains key (filters db ! 0 ! 0) then
        (case map_of (write_memtable db) key of
           Some v \<Rightarrow> if v \<noteq> TOMBSTONE then Inr (Some v) else Inr None
         | None \<Rightarrow> GET_tiers key db [1..<length (levels_main db)] [])
      else GET_tiers key db [1..<length (levels_main db)] [])"

text \<open>
  Modelled from the spec: the \<open>GET\<close> of the engine with two tables, whose \<open>REPL.cpp\<close> is not
  among the sources (\<open>database.cpp\<close> sets \<open>ifread_memtable\<close> and defines \<open>read_lock1\<close> for
  it). By the spec, \<open>get(k)\<close> consults the active filter and, if positive, probes the active
  buffer; if the engine has a frozen buffer (flush in progress) it checks the frozen
  filter and the frozen buffer; a found \<open>TOMBSTONE\<close> is definitively deleted and returns
  none without falling through to disk; then each tier's runs are searched newest first,
  which is the loop of \<open>GET\<close> above.
\<close>

definition GET_two_table :: "string \<Rightarrow> Database \<Rightarrow> error + string option" where
  "GET_two_table key db =
     (case (if contains key (filters db ! 0 ! 0) then map_of (write_memtable db) key else None) of
        Some v \<Rightarrow> if v \<noteq> TOMBSTONE then Inr (Some v) else Inr None
      | None \<Rightarrow>
          (case (if ifread_memtable db \<and> contains key (filters db ! 0 ! 1)
                 then map_of (read_memtable db) key else None) of
             Some v \<Rightarrow> if v \<noteq> TOMBSTONE then Inr (Some v) else Inr None
           | None \<Rightarrow> GET_tiers key db [1..<length (levels_main db)] []))"

text \<open>
  \<open>append_to_WAL\<close> writes one record to the stream \<open>wal\<close> and flushes it. A stream that is
  not open drops what is written to it.
\<close>

definition append_to_WAL :: "string \<Rightarrow> string \<Rightarrow> Database \<Rightarrow> Database" where
  "append_to_WAL key val db =
     (case wal db of
        None \<Rightarrow> db
      | Some p \<Rightarrow>
          (case logs db p of
             None \<Rightarrow> db
           | Some recs \<Rightarrow> db\<lparr>logs := (logs db)(p := Some (recs @ [(key, val)]))\<rparr>))"

text \<open>
  \<open>REPL::SET\<close>. While \<open>flushrunning\<close> is set the caller waits for the flusher, so the call
  does not return in this state (\<open>None\<close>). Otherwise the result is the returned \<open>bool\<close>
  and the new state. Raising \<open>flushrunning\<close> with \<open>V(flushid); merge_unlock(0)\<close> is what
  lets \<open>FLUSH\<close> pass its \<open>merge_lock(0)\<close>.
\<close>

definition SET :: "string \<Rightarrow> string \<Rightarrow> Database \<Rightarrow> (bool \<times> Database) option" where
  "SET key value db =
     (if flushrunning db then None
      else if length key + length value \<ge> MAX_bytes then Some (False, db)
      else
        (let db1 = append_to_WAL key value db;
             db2 = db1\<lparr>write_memtable := map_assign key value (write_memtable db1)\<rparr>;
             db3 = db2\<lparr>mem_size := mem_size db2 + (length key + length value)\<rparr>;
             db4 = db3\<lparr>filters := (filters db3)[0 := (filters db3 ! 0)[0 := add key (filters db3 ! 0 ! 0)]]\<rparr>;
             db5 = (if mem_size db4 \<ge> MAX_bytes then db4\<lparr>flushrunning := True\<rparr> else db4)
         in Some (True, db5)))"

definition DELETE :: "string \<Rightarrow> Database \<Rightarrow> (bool \<times> Database) option" where
  "DELETE key db = SET key TOMBSTONE db"

text \<open>
  A client that issues a sequence of \<open>SET\<close> calls, one after the other; \<open>DELETE(k)\<close> is the
  call \<open>SET(k, TOMBSTONE)\<close>.
\<close>

fun SET_all :: "(string \<times> string) list \<Rightarrow> Database \<Rightarrow> Database option" where
  "SET_all [] db = Some db"
| "SET_all ((key, value) # ops) db =
     (case SET key value db of
        None \<Rightarrow> None
      | Some (ok, db') \<Rightarrow> SET_all ops db')"

section \<open>FLUSH\<close>

text \<open>
  \<open>get_folder(i, Tier)\<close> creates the directory \<open>Tier_i\<close> when it does not exist, and then
  appends an entry to \<open>levels_main\<close> and to \<open>filters\<close>. The directories are created
  nowhere else and \<open>initialize_folder\<close> makes one entry per directory it finds, so \<open>Tier_i\<close>
  exists exactly when \<open>levels_main\<close> has an entry \<open>i\<close>.
\<close>

definition get_folder :: "nat \<Rightarrow> Database \<Rightarrow> Database" where
  "get_folder i db =
     (if i < length (levels_main db) then db
      else db\<lparr>levels_main := levels_main db @ [0], filters := filters db @ [[]]\<rparr>)"

text \<open>
  \<open>Rename(folder, folder1, i)\<close>: both callers pass the directory of tier \<open>i\<close> twice. The
  count of the tier is incremented and the pair \<open>temp.bin\<close>, \<open>temp1.bin\<close> takes the new
  count as its number.
\<close>

definition Rename :: "nat \<Rightarrow> Database \<Rightarrow> Database" where
  "Rename i db =
     (let n = levels_main db ! i + 1
      in db\<lparr>levels_main := (levels_main db)[i := n],
             tiers := (tiers db)(i := (tiers db i)(Run n := tiers db i Temp, Temp := None))\<rparr>)"

text \<open>
  The first half of the loop body of \<open>FLUSH\<close>, from \<open>merge_lock(0)\<close> to \<open>P(flushid)\<close>: the
  two memtables and the two filters of tier 0 are swapped, the log is closed and renamed to
  \<open>WAL_temp.bin\<close>, and a new \<open>WAL.bin\<close> is opened. The flusher passes \<open>merge_lock(0)\<close> only
  after a writer has raised \<open>flushrunning\<close>; \<open>rename\<close> throws when the log does not exist.
\<close>

definition flush_begin :: "Database \<Rightarrow> Database option" where
  "flush_begin db =
     (if \<not> flushrunning db then None
      else
        (case logs db (WAL db) of
           None \<Rightarrow> None
         | Some w \<Rightarrow>
             Some (db\<lparr>write_memtable := read_memtable db,
                       read_memtable := write_memtable db,
                       mem_size := 0,
                       filters := (filters db)
                          [0 := ((filters db ! 0)[0 := filters db ! 0 ! 1])[1 := filters db ! 0 ! 0]],
                       wal := Some WAL_bin,
                       logs := (((logs db)(WAL db := None))(WAL_temp_bin := Some w))(WAL_bin := Some []),
                       ifread_memtable := True,
                       flushrunning := False\<rparr>)))"

text \<open>
  The loop \<open>for (auto &[i, j] : read_memtable)\<close> of \<open>FLUSH\<close> on the data file, the metadata
  file, \<open>tot_size\<close> and the filter \<open>temp\<close>; then the whole file pair, which ends with
  \<open>nentries = read_memtable.size()\<close>.
\<close>

fun flush_rows :: "memtable \<Rightarrow> string \<times> nat list \<times> nat \<times> BloomFilter \<Rightarrow> string \<times> nat list \<times> nat \<times> BloomFilter" where
  "flush_rows [] st = st"
| "flush_rows ((i, j) # m) (file, meta, tot_size, t) =
     flush_rows m (file @ i @ j,
                   meta @ [tot_size + length i, tot_size + length i + length j],
                   tot_size + length i + length j,
                   add i t)"

definition flush_table :: "memtable \<Rightarrow> BloomFilter \<Rightarrow> sstable \<times> BloomFilter" where
  "flush_table m t =
     (case flush_rows m ([], [0], 0, t) of
        (file, meta, tot_size, t') \<Rightarrow> (\<lparr>bin = file, metadata = meta @ [length m]\<rparr>, t'))"

text \<open>
  The second half of the loop body of \<open>FLUSH\<close>: the frozen table is written to
  \<open>Tier_1/temp.bin\<close> and \<open>temp1.bin\<close>; the frozen table and its filter are cleared and
  \<open>WAL_temp.bin\<close> is removed; the filter is appended to \<open>filters[1]\<close> and the pair is renamed.
  It runs only after the first half (\<open>ifread_memtable\<close>).
\<close>

definition flush_finish :: "Database \<Rightarrow> Database option" where
  "flush_finish db =
     (if \<not> ifread_memtable db then None
      else
        (let db1 = get_folder 1 db;
             ft = flush_table (read_memtable db1) (temp db1);
             db2 = db1\<lparr>temp := snd ft, tiers := (tiers db1)(1 := (tiers db1 1)(Temp := Some (fst ft)))\<rparr>;
             db3 = db2\<lparr>read_memtable := [],
                       filters := (filters db2)[0 := (filters db2 ! 0)[1 := clear (filters db2 ! 0 ! 1)]],
                       logs := (logs db2)(WAL_temp_bin := None),
                       ifread_memtable := False\<rparr>;
             db4 = db3\<lparr>filters := (filters db3)[1 := filters db3 ! 1 @ [temp db3]]\<rparr>
         in Some (Rename 1 db4)))"

section \<open>merge\<close>

text \<open>
  \<open>merge\<close> keeps four vectors of the same length: the data streams \<open>src\<close>, the metadata
  streams \<open>meta_src\<close>, the offsets \<open>pre_idx\<close> and the current records \<open>data\<close>. A cursor is
  one index of the four: what its two streams have not yet delivered, its offset and
  its current record.
\<close>

record cursor =
  src :: string
  meta_src :: "nat list"
  pre_idx :: nat
  data :: "string \<times> string"

text \<open>What \<open>merge\<close> writes: the two output streams, \<open>tot_len\<close>, \<open>count\<close> and the filter \<open>temp\<close>.\<close>

record merge_out =
  dest :: string
  meta_dest :: "nat list"
  tot_len :: nat
  count :: nat
  temp1 :: BloomFilter

text \<open>
  Before the loop the first entry of every metadata stream is read into \<open>pre_idx[j]\<close>,
  and every \<open>data[j]\<close> is a pair of empty strings. Reading from a stream that has nothing
  left stops the model (\<open>None\<close>).
\<close>

definition open_cursor :: "sstable \<Rightarrow> cursor option" where
  "open_cursor f =
     (case metadata f of
        [] \<Rightarrow> None
      | p # rest \<Rightarrow> Some \<lparr>src = bin f, meta_src = rest, pre_idx = p, data = ([], [])\<rparr>)"

text \<open>
  The branch \<open>else if (src[j].peek() != EOF)\<close> reads \<open>key_idx\<close> and \<open>val_idx\<close> from the
  metadata stream, then \<open>key_idx - pre_idx[j]\<close> bytes of key and \<open>val_idx - key_idx\<close> bytes
  of value from the data stream.
\<close>

definition read_record :: "cursor \<Rightarrow> cursor option" where
  "read_record c =
     (case meta_src c of
        key_idx # val_idx # rest \<Rightarrow>
          if pre_idx c \<le> key_idx \<and> key_idx \<le> val_idx \<and> val_idx - pre_idx c \<le> length (src c)
          then Some \<lparr>src = drop (val_idx - pre_idx c) (src c),
                     meta_src = rest,
                     pre_idx = val_idx,
                     data = (take (key_idx - pre_idx c) (src c),
                             take (val_idx - key_idx) (drop (key_idx - pre_idx c) (src c)))\<rparr>
          else None
      | _ \<Rightarrow> None)"

text \<open>
  The pointers \<open>key\<close> and \<open>val\<close> point into the same \<open>data[j]\<close>; they are the index \<open>j\<close>, or
  null. \<open>if (!key || data[j].first < *key)\<close> moves them to \<open>j\<close>.
\<close>

fun select :: "cursor list \<Rightarrow> nat \<Rightarrow> nat option \<Rightarrow> nat option" where
  "select cs j None = Some j"
| "select cs j (Some k) = (if fst (data (cs ! j)) < fst (data (cs ! k)) then Some j else Some k)"

text \<open>
  The inner loop \<open>for (j = src.size() - 1; j >= 0; --j)\<close>: \<open>merge_scan prev n\<close> runs it for
  the indices below \<open>n\<close>, from the highest down.
\<close>

fun merge_scan :: "string \<Rightarrow> nat \<Rightarrow> cursor list \<Rightarrow> nat option \<Rightarrow> bool \<Rightarrow> (cursor list \<times> nat option \<times> bool) option" where
  "merge_scan prev 0 cs key flag = Some (cs, key, flag)"
| "merge_scan prev (Suc j) cs key flag =
     (if fst (data (cs ! j)) > prev then merge_scan prev j cs (select cs j key) True
      else if src (cs ! j) \<noteq> [] then
        (case read_record (cs ! j) of
           None \<Rightarrow> None
         | Some c \<Rightarrow> merge_scan prev j (cs[j := c]) (select (cs[j := c]) j key) True)
      else merge_scan prev j cs key flag)"

text \<open>The lambda \<open>Write\<close>; it increments \<open>count\<close> itself.\<close>

definition Write :: "string \<Rightarrow> string \<Rightarrow> merge_out \<Rightarrow> merge_out" where
  "Write key val out =
     out\<lparr>dest := dest out @ key @ val,
         meta_dest := meta_dest out @ [tot_len out + length key, tot_len out + length key + length val],
         tot_len := tot_len out + length key + length val,
         count := count out + 1,
         temp1 := add key (temp1 out)\<rparr>"

text \<open>
  The loop \<open>while (1)\<close>: one scan, \<open>break\<close> when no cursor raised \<open>flag\<close>, else
  \<open>prev = *key\<close> and, unless the record is a tombstone of the last merge, \<open>++count\<close> and
  \<open>Write(*key, *val)\<close>. The parameter \<open>last\<close> is \<open>last'\<close> here.
\<close>

partial_function (option) merge_loop :: "bool \<Rightarrow> cursor list \<Rightarrow> string \<Rightarrow> merge_out \<Rightarrow> merge_out option" where
  "merge_loop last' cs prev out =
     (case merge_scan prev (length cs) cs None False of
        None \<Rightarrow> None
      | Some (cs', key, flag) \<Rightarrow>
          if \<not> flag then Some out
          else
            (case key of
               None \<Rightarrow> None
             | Some k \<Rightarrow>
                 merge_loop last' cs' (fst (data (cs' ! k)))
                   (if \<not> (last' \<and> snd (data (cs' ! k)) = TOMBSTONE)
                    then Write (fst (data (cs' ! k))) (snd (data (cs' ! k))) (out\<lparr>count := count out + 1\<rparr>)
                    else out)))"

declare merge_loop.simps [code]

text \<open>
  \<open>merge\<close>: the output metadata starts with \<open>tot_len = 0\<close> and ends with \<open>count\<close>. The
  result is the output file pair and the filter \<open>temp\<close>.
\<close>

definition merge :: "sstable list \<Rightarrow> BloomFilter \<Rightarrow> bool \<Rightarrow> (sstable \<times> BloomFilter) option" where
  "merge files t last' =
     (case those (map open_cursor files) of
        None \<Rightarrow> None
      | Some cs \<Rightarrow>
          (case merge_loop last' cs [] \<lparr>dest = [], meta_dest = [0], tot_len = 0, count = 0, temp1 = t\<rparr> of
             None \<Rightarrow> None
           | Some out \<Rightarrow> Some (\<lparr>bin = dest out, metadata = meta_dest out @ [count out]\<rparr>, temp1 out)))"

section \<open>compact\<close>

text \<open>
  The files \<open>1.bin\<close> to \<open>levels_main[i].bin\<close> of tier \<open>i\<close> with their metadata, in this
  order; the asserts of \<open>multi_way_merge\<close> fail when one is missing.
\<close>

definition tier_files :: "Database \<Rightarrow> nat \<Rightarrow> sstable list option" where
  "tier_files db i = those (map (\<lambda>j. tiers db i (Run (j + 1))) [0..<levels_main db ! i])"

text \<open>
  The loop of \<open>compact\<close> that removes the files \<open>j.bin\<close> and \<open>metadataj.bin\<close> of a tier,
  for \<open>j\<close> from 1 to \<open>levels_main[i]\<close>.
\<close>

fun remove_runs :: "nat \<Rightarrow> (file_name \<Rightarrow> sstable option) \<Rightarrow> file_name \<Rightarrow> sstable option" where
  "remove_runs 0 dir = dir"
| "remove_runs (Suc j) dir = remove_runs j (dir(Run (Suc j) := None))"

text \<open>
  One call of \<open>compact(i)\<close> up to its recursive call. \<open>last\<close> is computed from
  \<open>levels_main.size()\<close> before \<open>get_folder(i + 1)\<close> can add a tier. \<open>compact\<close> is called for
  tiers that exist, from tier 1 on. \<open>h\<close> is the hash functor \<open>hash<string>()\<close> that the
  constructor of the new filter \<open>temp1\<close> uses.
\<close>

definition compact_step :: "(string \<Rightarrow> 64 word) \<Rightarrow> nat \<Rightarrow> Database \<Rightarrow> Database option" where
  "compact_step h i db =
     (if i = 0 \<or> length (levels_main db) \<le> i then None
      else
        (let last' = (int i = int (length (levels_main db)) - 1);
             db1 = get_folder (i + 1) (get_folder i db)
         in case tier_files db1 i of
              None \<Rightarrow> None
            | Some files \<Rightarrow>
                (case merge files (BloomFilter_new h) last' of
                   None \<Rightarrow> None
                 | Some (f, t) \<Rightarrow>
                     (let db2 = db1\<lparr>tiers := (tiers db1)(i + 1 := (tiers db1 (i + 1))(Temp := Some f))\<rparr>;
                          db3 = db2\<lparr>tiers := (tiers db2)(i := remove_runs (levels_main db2 ! i) (tiers db2 i)),
                                    filters := (filters db2)[i := []],
                                    levels_main := (levels_main db2)[i := 0]\<rparr>;
                          db4 = db3\<lparr>filters := (filters db3)[i + 1 := filters db3 ! (i + 1) @ [t]]\<rparr>
                      in Some (Rename (i + 1) db4)))))"

text \<open>\<open>compact(i)\<close> with its recursive call on the next tier.\<close>

partial_function (option) compact :: "(string \<Rightarrow> 64 word) \<Rightarrow> nat \<Rightarrow> Database \<Rightarrow> Database option" where
  "compact h i db =
     (case compact_step h i db of
        None \<Rightarrow> None
      | Some db' \<Rightarrow> if levels_main db' ! (i + 1) \<ge> MIN_TH then compact h (i + 1) db' else Some db')"

declare compact.simps [code]

section \<open>Start-up: replaying the logs\<close>

text \<open>
  The loop \<open>while (file.peek() != EOF)\<close> of \<open>initializer_helper\<close> on the records of the log:
  each is added to \<open>mem_size\<close>, stored in \<open>write_memtable\<close> and added to \<open>filters[0][0]\<close>.
\<close>

fun replay :: "(string \<times> string) list \<Rightarrow> Database \<Rightarrow> Database" where
  "replay [] db = db"
| "replay ((key, val) # recs) db =
     replay recs
       (db\<lparr>mem_size := mem_size db + length key + length val,
            write_memtable := map_assign key val (write_memtable db),
            filters := (filters db)[0 := (filters db ! 0)[0 := add key (filters db ! 0 ! 0)]]\<rparr>)"

text \<open>
  \<open>flushrunning = 1; V(flushid); merge_unlock(0); T(flushid)\<close>: the caller wakes the
  flusher and waits until it has passed \<open>P(flushid)\<close>, that is until the first half of
  the flush is done. The flusher is one thread: a flush that is still in progress is
  finished first.
\<close>

definition await_flush :: "Database \<Rightarrow> Database option" where
  "await_flush db =
     (let db1 = db\<lparr>flushrunning := True\<rparr>
      in if ifread_memtable db1
         then (case flush_finish db1 of None \<Rightarrow> None | Some db2 \<Rightarrow> flush_begin db2)
         else flush_begin db1)"

text \<open>
  \<open>initializer_helper\<close>: \<open>assert(!file.fail())\<close> on the log \<open>WAL\<close>, the replay, then
  \<open>wal = ofstream(WAL, ios::binary | ios::out)\<close>, which opens the same log for writing and
  truncates it, then the flush when \<open>mem_size >= MAX\<close>.
\<close>

definition initializer_helper :: "Database \<Rightarrow> Database option" where
  "initializer_helper db =
     (case logs db (WAL db) of
        None \<Rightarrow> None
      | Some recs \<Rightarrow>
          (let db1 = replay recs db;
               db2 = db1\<lparr>wal := Some (WAL db1), logs := (logs db1)(WAL db1 := Some [])\<rparr>
           in if mem_size db2 \<ge> MAX_bytes then await_flush db2 else Some db2))"

text \<open>
  The first lines of \<open>initialize_memtable\<close>, up to its call of \<open>initializer_helper\<close>:
  \<open>WAL\<close> is set to \<open>WAL_temp.bin\<close> and the local path \<open>WAL1\<close> is chosen; when both
  \<open>WAL_temp.bin\<close> and \<open>WAL.bin\<close> exist, \<open>WAL.bin\<close> is renamed to \<open>WAL_temp1.bin\<close>. The
  result is the new state and \<open>WAL1\<close>.
\<close>

definition stage_logs :: "Database \<Rightarrow> Database \<times> path" where
  "stage_logs db =
     (let db0 = db\<lparr>WAL := WAL_temp_bin\<rparr>
      in if logs db0 WAL_temp_bin \<noteq> None \<and> logs db0 WAL_bin \<noteq> None
         then (db0\<lparr>logs := ((logs db0)(WAL_bin := None))(WAL_temp1_bin := logs db0 WAL_bin)\<rparr>,
               WAL_temp1_bin)
         else if logs db0 WAL_bin = None then (db0, WAL_temp1_bin)
         else (db0, WAL_bin))"

text \<open>
  \<open>initialize_memtable\<close>: after the staging, \<open>WAL_temp.bin\<close> is replayed when it exists
  (then \<open>wal.close()\<close> and \<open>remove("./Database/WAL.bin")\<close>); \<open>WAL\<close> is set to \<open>WAL.bin\<close>; when
  \<open>WAL1\<close> exists it is renamed to \<open>WAL.bin\<close> and replayed; otherwise a new \<open>WAL.bin\<close> is
  opened when there is none.
\<close>

definition initialize_memtable :: "Database \<Rightarrow> Database option" where
  "initialize_memtable db =
     (case stage_logs db of
        (db1, WAL1) \<Rightarrow>
          (case (if logs db1 WAL_temp_bin \<noteq> None
                 then (case initializer_helper db1 of
                         None \<Rightarrow> None
                       | Some d \<Rightarrow> Some (d\<lparr>wal := None, logs := (logs d)(WAL_bin := None)\<rparr>))
                 else Some db1) of
             None \<Rightarrow> None
           | Some db2 \<Rightarrow>
               (let db3 = db2\<lparr>WAL := WAL_bin\<rparr>
                in if logs db3 WAL1 \<noteq> None
                   then initializer_helper
                          (db3\<lparr>logs := ((logs db3)(WAL1 := None))(WAL_bin := logs db3 WAL1)\<rparr>)
                   else if logs db3 WAL_bin = None
                   then Some (db3\<lparr>wal := Some WAL_bin, logs := (logs db3)(WAL_bin := Some [])\<rparr>)
                   else Some db3)))"

text \<open>
  The fields as the constructor \<open>Database()\<close> sets them before it calls
  \<open>initialize_database\<close>, in a directory that has the logs \<open>lg\<close> and no tier: two filters
  for tier 0, \<open>levels_main = [1]\<close>, \<open>mem_size = 0\<close>, no flush running. The thread of \<open>FLUSH\<close>
  is started here and constructs its filter \<open>temp\<close>. \<open>WAL\<close> is assigned by
  \<open>initialize_memtable\<close> before its first use.
\<close>

definition Database_fields :: "(string \<Rightarrow> 64 word) \<Rightarrow> (path \<Rightarrow> (string \<times> string) list option) \<Rightarrow> Database" where
  "Database_fields h lg =
     \<lparr>filters = [[BloomFilter_new h, BloomFilter_new h]],
      wal = None,
      WAL = WAL_temp_bin,
      write_memtable = [],
      read_memtable = [],
      ifread_memtable = False,
      levels_main = [1],
      mem_size = 0,
      flushrunning = False,
      temp = BloomFilter_new h,
      logs = lg,
      tiers = (\<lambda>i n. None)\<rparr>"

section \<open>Vocabulary of the properties\<close>

text \<open>
  A run as the list of its records, in file order. \<open>run_bytes\<close> is the data file of a run
  and \<open>offsets\<close> are the entries of its metadata file after the first, starting from
  offset \<open>p\<close>; \<open>sst recs c\<close> is the file pair of the run \<open>recs\<close> whose metadata ends with \<open>c\<close>.
\<close>

type_synonym run = "(string \<times> string) list"

definition run_bytes :: "run \<Rightarrow> string" where
  "run_bytes recs = concat (map (\<lambda>(k, v). k @ v) recs)"

fun offsets :: "nat \<Rightarrow> run \<Rightarrow> nat list" where
  "offsets p [] = []"
| "offsets p ((k, v) # recs) =
     (p + length k) # (p + length k + length v) # offsets (p + length k + length v) recs"

definition sst :: "run \<Rightarrow> nat \<Rightarrow> sstable" where
  "sst recs c = \<lparr>bin = run_bytes recs, metadata = 0 # offsets 0 recs @ [c]\<rparr>"

text \<open>
  The records of a file pair, decoded through its metadata: every two entries after the
  first delimit a key and its value; the last entry is the count and delimits nothing.
\<close>

fun decode :: "nat \<Rightarrow> nat list \<Rightarrow> string \<Rightarrow> run" where
  "decode p (a # b # m) s =
     (take (a - p) s, take (b - a) (drop (a - p) s)) # decode b m (drop (b - p) s)"
| "decode p m s = []"

definition records_of :: "sstable \<Rightarrow> run" where
  "records_of f = (case metadata f of [] \<Rightarrow> [] | p # m \<Rightarrow> decode p (butlast m) (bin f))"

text \<open>
  The newest file of tier \<open>i\<close> (the one numbered \<open>levels_main[i]\<close>): its records and the last
  entry of its metadata. \<open>last_tier\<close> is the number of the highest tier.
\<close>

definition new_run :: "nat \<Rightarrow> Database \<Rightarrow> run option" where
  "new_run i db = map_option records_of (tiers db i (Run (levels_main db ! i)))"

definition final_count :: "nat \<Rightarrow> Database \<Rightarrow> nat option" where
  "final_count i db = map_option (last \<circ> metadata) (tiers db i (Run (levels_main db ! i)))"

definition last_tier :: "Database \<Rightarrow> nat" where
  "last_tier db = length (levels_main db) - 1"

text \<open>
  The merged run of a list of runs (oldest first): its keys are the keys of the runs in
  increasing order, and the value of a key is its value in the last run that holds it.
  \<open>merge\<close> tests the end of a run on its data file, so a run whose data file is empty
  delivers nothing: \<open>visible\<close> is what a cursor can read of a run.
\<close>

definition keys_of :: "run list \<Rightarrow> string set" where
  "keys_of runs = (\<Union>r \<in> set runs. fst ` set r)"

definition newest :: "run list \<Rightarrow> string \<Rightarrow> string option" where
  "newest runs k =
     (case List.filter (\<lambda>r. k \<in> fst ` set r) runs of
        [] \<Rightarrow> None
      | r # rs \<Rightarrow> map_of (last (r # rs)) k)"

definition merged :: "run list \<Rightarrow> run" where
  "merged runs = map (\<lambda>k. (k, the (newest runs k))) (sorted_list_of_set (keys_of runs))"

definition visible :: "run \<Rightarrow> run" where
  "visible recs = (if run_bytes recs = [] then [] else recs)"

definition keep :: "bool \<Rightarrow> run \<Rightarrow> run" where
  "keep last' recs = List.filter (\<lambda>kv. \<not> (last' \<and> snd kv = TOMBSTONE)) recs"

text \<open>
  A log as a list of records: the bytes that its replay adds to \<open>mem_size\<close>, and the table
  that results from storing its records one after the other.
\<close>

definition total_bytes :: "(string \<times> string) list \<Rightarrow> nat" where
  "total_bytes w = sum_list (map (\<lambda>kv. length (fst kv) + length (snd kv)) w)"

definition inserted :: "(string \<times> string) list \<Rightarrow> memtable \<Rightarrow> memtable" where
  "inserted w m = foldl (\<lambda>m kv. map_assign (fst kv) (snd kv) m) m w"

text \<open>
  What the engine does between a write and a later read: calls of \<open>SET\<close> and \<open>DELETE\<close>, and
  the two halves of a flush. The flusher is one thread whose loop swaps the tables and then
  writes the file, so a swap does not happen while \<open>ifread_memtable\<close> is set.
  \<open>writes k e\<close>: the event \<open>e\<close> is a call of \<open>SET\<close> or \<open>DELETE\<close> on the key \<open>k\<close>.
\<close>

datatype event = Put string string | Delete string | Flush_swap | Flush_write

fun apply_event :: "event \<Rightarrow> Database \<Rightarrow> Database option" where
  "apply_event (Put k v) db = map_option snd (SET k v db)"
| "apply_event (Delete k) db = map_option snd (DELETE k db)"
| "apply_event Flush_swap db = (if ifread_memtable db then None else flush_begin db)"
| "apply_event Flush_write db = flush_finish db"

fun run_events :: "event list \<Rightarrow> Database \<Rightarrow> Database option" where
  "run_events [] db = Some db"
| "run_events (e # es) db =
     (case apply_event e db of
        None \<Rightarrow> None
      | Some db' \<Rightarrow> run_events es db')"


text \<open>
  What the constructor establishes and every event keeps. \<open>filters\<close> and \<open>levels_main\<close> have
  one entry per tier, tier 0 has its two filters and tier 1 one filter per file. The two
  tables are sorted by key, as a \<open>std::map\<close> is, and every key of a table is in the filter
  of that table. The frozen table is empty unless a flush is in progress. \<open>mem_size\<close> is at
  least the number of bytes in the active table, it is below \<open>MAX\<close> whenever a writer can
  enter, and the bytes of either table stay below \<open>2^31\<close>.
\<close>

definition engine_ok :: "Database \<Rightarrow> bool" where
  "engine_ok db \<longleftrightarrow>
     levels_main db \<noteq> [] \<and> length (filters db) = length (levels_main db) \<and>
     length (filters db ! 0) = 2 \<and>
     (1 < length (levels_main db) \<longrightarrow> length (filters db ! 1) = levels_main db ! 1) \<and>
     sorted_wrt (<) (map fst (write_memtable db)) \<and>
     sorted_wrt (<) (map fst (read_memtable db)) \<and>
     list_all (\<lambda>kv. contains (fst kv) (filters db ! 0 ! 0)) (write_memtable db) \<and>
     list_all (\<lambda>kv. contains (fst kv) (filters db ! 0 ! 1)) (read_memtable db) \<and>
     (\<not> ifread_memtable db \<longrightarrow> read_memtable db = []) \<and>
     length (run_bytes (write_memtable db)) \<le> mem_size db \<and>
     (\<not> flushrunning db \<longrightarrow> mem_size db < MAX_bytes) \<and>
     mem_size db < 2 ^ 31 - 1 \<and>
     length (run_bytes (read_memtable db)) < 2 ^ 31 - 1"

section \<open>Vocabulary of the proofs about GET\<close>

text \<open>
  \<open>flushed f\<close>: the file pair \<open>f\<close> is what \<open>FLUSH\<close> writes for a sorted table of less than
  \<open>2^31\<close> bytes. \<open>in_files k v fs dir n\<close>: among the files \<open>1\<close> to \<open>n\<close> of the directory
  \<open>dir\<close>, all written by \<open>FLUSH\<close>, the newest that holds the key \<open>k\<close> holds it with the value
  \<open>v\<close>, and its filter in \<open>fs\<close> has the key. \<open>holds k v db\<close>: the newest record of \<open>k\<close> in the
  engine has the value \<open>v\<close> and is in the active table, or else in the frozen table, or
  else in a file of tier 1. \<open>answer v\<close> is what a reader returns for such a key.
\<close>

definition flushed :: "sstable \<Rightarrow> bool" where
  "flushed f \<longleftrightarrow>
     f = sst (records_of f) (length (records_of f)) \<and>
     sorted_wrt (<) (map fst (records_of f)) \<and>
     length (run_bytes (records_of f)) < 2 ^ 31 - 1"

fun in_files :: "string \<Rightarrow> string \<Rightarrow> BloomFilter list \<Rightarrow> (file_name \<Rightarrow> sstable option) \<Rightarrow> nat \<Rightarrow> bool" where
  "in_files k v fs dir 0 = False"
| "in_files k v fs dir (Suc j) =
     (case dir (Run (Suc j)) of
        None \<Rightarrow> False
      | Some f \<Rightarrow>
          flushed f \<and>
          (case map_of (records_of f) k of
             Some v' \<Rightarrow> v' = v \<and> contains k (fs ! j)
           | None \<Rightarrow> in_files k v fs dir j))"

definition holds :: "string \<Rightarrow> string \<Rightarrow> Database \<Rightarrow> bool" where
  "holds k v db \<longleftrightarrow>
     (case map_of (write_memtable db) k of
        Some v' \<Rightarrow> v' = v
      | None \<Rightarrow>
          (case map_of (read_memtable db) k of
             Some v' \<Rightarrow> v' = v
           | None \<Rightarrow>
               1 < length (levels_main db) \<and>
               in_files k v (filters db ! 1) (tiers db 1) (levels_main db ! 1)))"

definition answer :: "string \<Rightarrow> error + string option" where
  "answer v = (if v = TOMBSTONE then Inr None else Inr (Some v))"

section \<open>Vocabulary of the proofs about merge\<close>

text \<open>
  What one scan does to one cursor, and whether the cursor raises \<open>flag\<close>; \<open>best cs A key\<close>
  says that \<open>key\<close> points to the smallest current key among the cursors \<open>A\<close>, and to the
  highest index among those that hold it.
\<close>

definition refresh :: "string \<Rightarrow> cursor \<Rightarrow> cursor option" where
  "refresh prev c =
     (if prev < fst (data c) then Some c else if src c \<noteq> [] then read_record c else Some c)"

definition active :: "string \<Rightarrow> cursor \<Rightarrow> bool" where
  "active prev c \<longleftrightarrow> prev < fst (data c) \<or> src c \<noteq> []"

definition best :: "cursor list \<Rightarrow> nat set \<Rightarrow> nat option \<Rightarrow> bool" where
  "best cs A key \<longleftrightarrow>
     (case key of
        None \<Rightarrow> A = {}
      | Some k \<Rightarrow> k \<in> A \<and> (\<forall>j\<in>A. fst (data (cs ! k)) \<le> fst (data (cs ! j))) \<and>
                  (\<forall>j\<in>A. k < j \<longrightarrow> fst (data (cs ! k)) < fst (data (cs ! j))))"

text \<open>
  \<open>cur c recs\<close>: the streams of cursor \<open>c\<close> still hold exactly the records \<open>recs\<close>.
  \<open>pend prev c r\<close> are the records that the cursor has yet to deliver when the last key
  written is \<open>prev\<close>: its current record, if that is above \<open>prev\<close>, and the records \<open>r\<close> left in
  its streams. The invariant of the loop: the pending records of every cursor are sorted
  and not below \<open>prev\<close>.
\<close>

definition cur :: "cursor \<Rightarrow> run \<Rightarrow> bool" where
  "cur c recs \<longleftrightarrow>
     src c = run_bytes recs \<and> (\<exists>rest. meta_src c = offsets (pre_idx c) recs @ rest) \<and>
     (run_bytes recs = [] \<longrightarrow> recs = [])"

definition pend :: "string \<Rightarrow> cursor \<Rightarrow> run \<Rightarrow> run" where
  "pend prev c r = (if prev < fst (data c) then data c # r else r)"

definition inv1 :: "string \<Rightarrow> cursor \<Rightarrow> run \<Rightarrow> bool" where
  "inv1 prev c r \<longleftrightarrow>
     cur c r \<and> sorted_wrt (<) (map fst (pend prev c r)) \<and>
     (\<forall>k \<in> fst ` set (pend prev c r). prev \<le> k)"

definition inv :: "string \<Rightarrow> cursor list \<Rightarrow> run list \<Rightarrow> bool" where
  "inv prev cs rs \<longleftrightarrow> length rs = length cs \<and> (\<forall>j < length cs. inv1 prev (cs ! j) (rs ! j))"

definition pends :: "string \<Rightarrow> cursor list \<Rightarrow> run list \<Rightarrow> run list" where
  "pends prev cs rs = map (\<lambda>j. pend prev (cs ! j) (rs ! j)) [0..<length cs]"

definition advance :: "string \<Rightarrow> run \<Rightarrow> run" where
  "advance k P = (if P \<noteq> [] \<and> fst (hd P) = k then tl P else P)"

text \<open>What one iteration of the loop does to the output for the record it selected.\<close>

definition emit :: "bool \<Rightarrow> merge_out \<Rightarrow> string \<times> string \<Rightarrow> merge_out" where
  "emit last' out kv =
     (if \<not> (last' \<and> snd kv = TOMBSTONE)
      then Write (fst kv) (snd kv) (out\<lparr>count := count out + 1\<rparr>)
      else out)"

section \<open>Example states\<close>

text \<open>
  The hash functor of the examples, and two long values: \<open>filler\<close> with a few short records
  fills the active table up to \<open>MAX\<close>, and \<open>oversize\<close> with a key of one byte is a record of
  \<open>MAX\<close> bytes.
\<close>

definition example_hash :: "string \<Rightarrow> 64 word" where
  "example_hash s = of_nat (length s)"

definition filler :: string where
  "filler = replicate 3999990 (CHR ''x'')"

definition oversize :: string where
  "oversize = replicate 3999999 (CHR ''x'')"

text \<open>
  The state that the constructor leaves in an empty directory; the states after
  \<open>SET(k, v)\<close> and after \<open>DELETE(z)\<close> on top of it; the call \<open>SET(k, TOMBSTONE)\<close> in the
  first state.
\<close>

definition fresh_db :: Database where
  "fresh_db = \<lparr>filters = [[BloomFilter_new example_hash, BloomFilter_new example_hash]],
       wal = Some WAL_bin, WAL = WAL_bin, write_memtable = [],
       read_memtable = [], ifread_memtable = False, levels_main = [1],
       mem_size = 0, flushrunning = False, temp = BloomFilter_new example_hash,
       logs = (\<lambda>p. None)(WAL_bin := Some []), tiers = (\<lambda>i n. None)\<rparr>"

definition kv_db :: Database where
  "kv_db = fresh_db\<lparr>filters := [[add ''k'' (BloomFilter_new example_hash), BloomFilter_new example_hash]],
       write_memtable := [(''k'', ''v'')], mem_size := 2,
       logs := (\<lambda>p. None)(WAL_bin := Some [(''k'', ''v'')])\<rparr>"

definition kv_del_db :: Database where
  "kv_del_db = fresh_db\<lparr>filters := [[add ''z'' (add ''k'' (BloomFilter_new example_hash)), BloomFilter_new example_hash]],
       write_memtable := [(''k'', ''v''), (''z'', TOMBSTONE)], mem_size := 5,
       logs := (\<lambda>p. None)(WAL_bin := Some [(''k'', ''v''), (''z'', TOMBSTONE)])\<rparr>"




definition frozen_db :: Database where
  "frozen_db = fresh_db\<lparr>filters :=
        [[BloomFilter_new example_hash,
          add ''p'' (add ''a'' (add ''big'' (add ''big'' (BloomFilter_new example_hash))))]],
        read_memtable := [(''a'', ''v''), (''big'', []), (''p'', ''q'')],
        ifread_memtable := True,
        logs := (\<lambda>p. None)(WAL_temp_bin := Some [(''big'', filler), (''big'', []), (''a'', ''v''), (''p'', ''q'')],
           WAL_bin := Some [])\<rparr>"





text \<open>
  Tiers to compact, their files written by \<open>FLUSH\<close>. \<open>stub_tier\<close> holds four runs: the
  oldest is the run of a table that maps the empty key to \<open>x\<close>, the newest the run of a table
  that maps the empty key to the empty value. \<open>tier1_dir\<close> holds four runs, the
  newest of which deletes \<open>a\<close>; in \<open>one_tier_db\<close> tier 1 is the only tier on disk, in
  \<open>two_tier_db\<close> there is a tier 2 as well, with one run. In \<open>crowded_db\<close> the four runs of
  tier 1 each hold the key \<open>a\<close> and tier 2 holds the key \<open>z\<close>; \<open>compacted_db\<close> is that state
  after the compaction of tier 1.
\<close>

definition t0 :: BloomFilter where "t0 = BloomFilter_new example_hash"

definition stub_tier :: "sstable list" where
  "stub_tier = [fst (flush_table [([], ''x'')] t0), fst (flush_table [(''k'', ''1'')] t0),
                fst (flush_table [(''m'', ''2'')] t0), fst (flush_table [([], [])] t0)]"

definition one_run_tier :: "sstable list" where
  "one_run_tier = [fst (flush_table [(''a'', ''1'')] t0)]"

definition tier1_runs :: "run list" where
  "tier1_runs = [[(''a'', ''1'')], [(''a'', ''2''), (''b'', ''x'')], [(''c'', ''y'')], [(''a'', TOMBSTONE)]]"

definition tier1_dir :: "file_name \<Rightarrow> sstable option" where
  "tier1_dir = (\<lambda>n. None)
     (Run 1 := Some (fst (flush_table (tier1_runs ! 0) t0)),
      Run 2 := Some (fst (flush_table (tier1_runs ! 1) t0)),
      Run 3 := Some (fst (flush_table (tier1_runs ! 2) t0)),
      Run 4 := Some (fst (flush_table (tier1_runs ! 3) t0)))"

definition one_tier_db :: Database where
  "one_tier_db = fresh_db\<lparr>filters := [[t0, t0], [t0, t0, t0, t0]], levels_main := [1, 4],
      tiers := (\<lambda>i n. None)(1 := tier1_dir)\<rparr>"

definition two_tier_db :: Database where
  "two_tier_db = fresh_db\<lparr>filters := [[t0, t0], [t0, t0, t0, t0], [t0]], levels_main := [1, 4, 1],
      tiers := (\<lambda>i n. None)(1 := tier1_dir, 2 := (\<lambda>n. None)(Run 1 := Some (sst [(''a'', ''0'')] 2)))\<rparr>"

definition crowded_db :: Database where
  "crowded_db = fresh_db\<lparr>filters := [[t0, t0], [add ''a'' t0, add ''a'' t0, add ''a'' t0, add ''a'' t0], [add ''z'' t0]],
      levels_main := [1, 4, 1],
      tiers := (\<lambda>i n. None)
        (1 := (\<lambda>n. None)
           (Run 1 := Some (fst (flush_table [(''a'', ''1'')] t0)),
            Run 2 := Some (fst (flush_table [(''a'', ''2'')] t0)),
            Run 3 := Some (fst (flush_table [(''a'', ''3'')] t0)),
            Run 4 := Some (fst (flush_table [(''a'', ''44'')] t0))),
         2 := (\<lambda>n. None)(Run 1 := Some \<lparr>bin = ''zv'', metadata = [0, 1, 2, 2]\<rparr>))\<rparr>"

definition compacted_db :: Database where
  "compacted_db = fresh_db\<lparr>filters := [[t0, t0], [], [add ''z'' t0, add ''a'' t0]],
      levels_main := [1, 0, 2],
      tiers := (\<lambda>i n. None)
        (1 := (\<lambda>n. None),
         2 := (\<lambda>n. None)(Run 1 := Some \<lparr>bin = ''zv'', metadata = [0, 1, 2, 2]\<rparr>,
                           Run 2 := Some \<lparr>bin = ''a44'', metadata = [0, 1, 3, 2]\<rparr>))\<rparr>"

text \<open>
  Directories found at start-up with both \<open>WAL_temp.bin\<close> and \<open>WAL.bin\<close>: two short logs, and
  logs that together hold \<open>MAX\<close> bytes and more.
\<close>

definition crash_db :: Database where
  "crash_db = Database_fields example_hash
     ((\<lambda>p. None)(WAL_temp_bin := Some [(''k'', ''1''), (''a'', ''x'')], WAL_bin := Some [(''k'', ''2'')]))"

definition full_db :: Database where
  "full_db = Database_fields example_hash
     ((\<lambda>p. None)(WAL_temp_bin := Some [(''k'', ''1'')],
                   WAL_bin := Some [(''big'', filler), (''k'', ''2222222'')]))"

section \<open>The filter has no false negatives\<close>

lemma fold_set_bits:
  "fold (\<lambda>i bits. bits(f i := True)) is bits n \<longleftrightarrow> bits n \<or> n \<in> f ` set is"
  by (induction "is" arbitrary: bits) auto

lemma filter_add [simp]: "filter' (add key b) = filter' b"
  by (simp add: add_def)

lemma slot_add [simp]: "slot (add key b) k i = slot b k i"
  by (simp add: slot_def)

lemma bitArray_add:
  "bitArray (add key b) n \<longleftrightarrow> bitArray b n \<or> n \<in> slot b key ` {0..<length (filter' b)}"
  by (simp add: add_def fold_set_bits)

lemma contains_loop_iff:
  "contains_loop b key is \<longleftrightarrow> (\<forall>i \<in> set is. bitArray b (slot b key i))"
  by (induction "is") auto

lemma contains_iff:
  "contains key b \<longleftrightarrow> (\<forall>i < length (filter' b). bitArray b (slot b key i))"
  by (auto simp: contains_def contains_loop_iff)

lemma contains_add_same: "contains key (add key b)"
  by (simp add: contains_iff bitArray_add)

lemma contains_add_other: "contains k b \<Longrightarrow> contains k (add key b)"
  by (simp add: contains_iff bitArray_add)

lemma contains_fold_add_keeps: "contains k b \<Longrightarrow> contains k (fold add ks b)"
  by (induction ks arbitrary: b) (auto intro: contains_add_other)

text \<open>
  C8. Whatever the hash functors are and whatever the filter held before, once \<open>add(k)\<close>
  is among the \<open>add\<close> calls made on a filter (and no \<open>clear()\<close> is), \<open>contains(k)\<close> is true.
\<close>

theorem bloom_no_false_negatives:
  "k \<in> set ks \<Longrightarrow> contains k (fold add ks b)"
proof (induction ks arbitrary: b)
  case Nil
  then show ?case by simp
next
  case (Cons a ks)
  show ?case
  proof (cases "a = k")
    case True
    then show ?thesis
      by (simp add: contains_fold_add_keeps contains_add_same)
  next
    case False
    with Cons.prems have "k \<in> set ks" by simp
    then show ?thesis by (simp add: Cons.IH)
  qed
qed

theorem bloom_no_false_negatives_witness:
  "''b'' \<in> set [''a'', ''b'', ''c''] \<and>
   contains ''b'' (fold add [''a'', ''b'', ''c''] (BloomFilter_new (\<lambda>s. of_nat (length s))))"
  using bloom_no_false_negatives
    [of "''b''" "[''a'', ''b'', ''c'']" "BloomFilter_new (\<lambda>s. of_nat (length s))"]
  by simp

section \<open>Writing and reading the active table\<close>

lemma length_filler: "length filler = 3999990"
  by (simp add: filler_def)

lemma fresh_db_init: "initialize_memtable (Database_fields example_hash (\<lambda>p. None)) = Some fresh_db"
  by (simp add: fresh_db_def initialize_memtable_def stage_logs_def Database_fields_def Let_def)

lemma map_of_map_assign:
  "map_of (map_assign key val m) k = (if k = key then Some val else map_of m k)"
  by (induction m) auto

lemma set_map_assign: "fst ` set (map_assign key val m) = insert key (fst ` set m)"
proof (induction m)
  case Nil
  then show ?case by simp
next
  case (Cons kv m)
  obtain k v where kv: "kv = (k, v)" by (cases kv)
  show ?case
    unfolding kv using Cons.IH by (cases "key < k"; cases "key = k") (simp_all add: insert_commute)
qed

text \<open>The active table stays sorted by key, as a \<open>std::map\<close> is.\<close>

lemma sorted_map_assign:
  "sorted_wrt (<) (map fst m) \<Longrightarrow> sorted_wrt (<) (map fst (map_assign key val m))"
proof (induction m)
  case Nil
  then show ?case by simp
next
  case (Cons kv m)
  obtain k v where kv: "kv = (k, v)" by (cases kv)
  from Cons.prems have s: "sorted_wrt (<) (map fst m)" and h: "\<forall>x \<in> fst ` set m. k < x"
    by (auto simp: kv)
  show ?case
  proof (cases "key < k")
    case True
    with Cons.prems show ?thesis by (auto simp: kv)
  next
    case False
    show ?thesis
    proof (cases "key = k")
      case True
      with Cons.prems show ?thesis by (auto simp: kv)
    next
      case ne: False
      with False have "k < key" by auto
      with h have "\<forall>x \<in> fst ` set (map_assign key val m). k < x"
        by (simp add: set_map_assign)
      with Cons.IH[OF s] False ne show ?thesis
        by (auto simp: kv)
    qed
  qed
qed







text \<open>
  C6. When no flush is pending \<open>SET(k, v)\<close> returns, and it returns false exactly when
  \<open>|k| + |v| >= MAX\<close>; in that case the logs, the active table, the filters and \<open>mem_size\<close> are
  what they were, and \<open>GET(k)\<close> gives what it gave before the call.
\<close>

theorem put_rejected_iff_oversize:
  assumes "\<not> flushrunning db"
  shows "\<exists>ok db'. SET k v db = Some (ok, db') \<and>
           (\<not> ok \<longleftrightarrow> MAX_bytes \<le> length k + length v) \<and>
           (\<not> ok \<longrightarrow> logs db' = logs db \<and> write_memtable db' = write_memtable db \<and>
                      filters db' = filters db \<and> mem_size db' = mem_size db \<and>
                      GET k db' = GET k db)"
  using assms by (auto simp: SET_def Let_def)

text \<open>
  C6 on an example: a record of exactly \<open>MAX\<close> bytes is rejected, the state is the same and
  \<open>GET(k)\<close> still returns the value stored before.
\<close>

theorem put_rejected_iff_oversize_witness:
  "\<not> flushrunning kv_db \<and> SET ''k'' oversize kv_db = Some (False, kv_db) \<and>
   MAX_bytes \<le> length ''k'' + length oversize \<and> GET ''k'' kv_db = Inr (Some ''v'')"
proof -
  have 1: "\<not> flushrunning kv_db" by (simp add: kv_db_def fresh_db_def)
  have 2: "MAX_bytes \<le> length ''k'' + length oversize" by (simp add: MAX_bytes_def oversize_def)
  from put_rejected_iff_oversize[OF 1, of "''k''" oversize] 2
  have 3: "SET ''k'' oversize kv_db = Some (False, kv_db)"
    by (auto simp: SET_def split: if_splits)
  have 4: "GET ''k'' kv_db = Inr (Some ''v'')"
    by (simp add: GET_def kv_db_def fresh_db_def contains_add_same TOMBSTONE_def)
  from 1 2 3 4 show ?thesis by simp
qed

text \<open>
  C10. \<open>DELETE(k)\<close> is the call \<open>SET(k, TOMBSTONE)\<close>, and \<open>TOMBSTONE\<close> is the two bytes CR, LF.
  When no flush is pending it returns, false exactly when \<open>|k| + 2 >= MAX\<close>; when it returns
  true the active table maps \<open>k\<close> to \<open>TOMBSTONE\<close> and the open log has the record
  \<open>(k, TOMBSTONE)\<close> at its end, whether or not the store held \<open>k\<close> before.
\<close>

theorem delete_is_put_tombstone:
  "DELETE k db = SET k TOMBSTONE db \<and> TOMBSTONE = [CHR 0x0D, CHR 0x0A] \<and>
   (\<not> flushrunning db \<longrightarrow>
      (\<exists>ok db'. DELETE k db = Some (ok, db') \<and>
         (\<not> ok \<longleftrightarrow> MAX_bytes \<le> length k + 2) \<and>
         (ok \<longrightarrow> map_of (write_memtable db') k = Some TOMBSTONE \<and>
                  (\<forall>p recs. wal db = Some p \<and> logs db p = Some recs \<longrightarrow>
                     logs db' p = Some (recs @ [(k, TOMBSTONE)])))))"
  by (auto simp: DELETE_def SET_def Let_def TOMBSTONE_def append_to_WAL_def map_of_map_assign)

text \<open>
  C10 on an example: \<open>z\<close> is absent, \<open>DELETE(z)\<close> returns true and the tombstone is in the
  active table and in the log.
\<close>

theorem delete_is_put_tombstone_witness:
  "\<not> flushrunning kv_db \<and> GET ''z'' kv_db = Inr None \<and>
   wal kv_db = Some WAL_bin \<and> logs kv_db WAL_bin = Some [(''k'', ''v'')] \<and>
   DELETE ''z'' kv_db = Some (True, kv_del_db) \<and>
   map_of (write_memtable kv_del_db) ''z'' = Some TOMBSTONE \<and>
   logs kv_del_db WAL_bin = Some [(''k'', ''v''), (''z'', TOMBSTONE)]"
proof -
  have 1: "\<not> flushrunning kv_db" by (simp add: kv_db_def fresh_db_def)
  have 2: "DELETE ''z'' kv_db = Some (True, kv_del_db)"
    by (simp add: DELETE_def SET_def kv_db_def fresh_db_def kv_del_db_def MAX_bytes_def
        append_to_WAL_def Let_def TOMBSTONE_def)
  have 3: "wal kv_db = Some WAL_bin \<and> logs kv_db WAL_bin = Some [(''k'', ''v'')]"
    by (simp add: kv_db_def fresh_db_def)
  have 4: "GET ''z'' kv_db = Inr None"
    by (simp add: GET_def kv_db_def fresh_db_def contains_def BloomFilter_new_def NOFILTERS_def
        add_def slot_def example_hash_def upt_rec[of 0] upt_rec[of 1] upt_rec[of 2] upt_rec[of 3])
  from delete_is_put_tombstone[of "''z''" kv_db] 1 2 3 4 show ?thesis
    by auto
qed

section \<open>Runs as lists of records\<close>

lemma run_bytes_simps [simp]:
  "run_bytes [] = []"
  "run_bytes ((k, v) # recs) = k @ v @ run_bytes recs"
  by (simp_all add: run_bytes_def)

lemma run_bytes_append [simp]: "run_bytes (xs @ ys) = run_bytes xs @ run_bytes ys"
  by (simp add: run_bytes_def)

lemma offsets_append:
  "offsets p (xs @ ys) = offsets p xs @ offsets (p + length (run_bytes xs)) ys"
  by (induction xs arbitrary: p) (auto simp: add.assoc)

lemma length_offsets [simp]: "length (offsets p recs) = 2 * length recs"
  by (induction recs arbitrary: p) auto

lemma decode_offsets: "decode p (offsets p recs) (run_bytes recs @ rest) = recs"
  by (induction recs arbitrary: p) auto

lemma records_of_sst [simp]: "records_of (sst recs c) = recs"
  using decode_offsets[of 0 recs "[]"] by (simp add: records_of_def sst_def)

lemma last_metadata_sst [simp]: "last (metadata (sst recs c)) = c"
  by (simp add: sst_def)

section \<open>What FLUSH writes\<close>

lemma flush_rows_eq:
  "flush_rows m (fl, meta, tot, t) =
     (fl @ run_bytes m, meta @ offsets tot m, tot + length (run_bytes m), fold add (map fst m) t)"
  by (induction m arbitrary: fl meta tot t) (auto simp: add.assoc)

lemma flush_table_eq: "flush_table m t = (sst m (length m), fold add (map fst m) t)"
  by (simp add: flush_table_def flush_rows_eq sst_def)

lemma flush_table_records [simp]: "records_of (fst (flush_table m t)) = m"
  by (simp add: flush_table_eq)

text \<open>
  The file pair that the second half of a flush adds to tier 1 holds the records of the
  frozen table, and its metadata ends with their number.
\<close>

lemma flush_finish_new_file:
  assumes "ifread_memtable db" and "levels_main db \<noteq> []"
  shows "\<exists>db'. flush_finish db = Some db' \<and>
           new_run 1 db' = Some (read_memtable db) \<and>
           final_count 1 db' = Some (length (read_memtable db))"
proof -
  from assms(2) have "length (levels_main db) = Suc 0 \<or> Suc 0 < length (levels_main db)"
    by (cases "levels_main db") auto
  with assms(1) show ?thesis
    by (auto simp: flush_finish_def Let_def get_folder_def Rename_def new_run_def final_count_def
        flush_table_eq nth_append)
qed

section \<open>Find on a file written by FLUSH\<close>

lemma to_int_id: "0 \<le> m \<Longrightarrow> m < 2 ^ 31 \<Longrightarrow> to_int m = m"
  by (simp add: to_int_def)

lemma to_long_long_id: "n < 2 ^ 63 \<Longrightarrow> to_long_long n = int n"
  by (simp add: to_long_long_def)

lemma size_t_sub_id: "b \<le> a \<Longrightarrow> a < 2 ^ 64 \<Longrightarrow> size_t_sub a b = a - b"
  by (simp add: size_t_sub_def nat_diff_distrib' flip: of_nat_diff)

lemma resize_ok: "n \<le> string_max_size \<Longrightarrow> \<exists>buf. resize n s = Inr buf \<and> length buf = n"
  by (simp add: resize_def)

lemma read_bytes_whole:
  "length buf = n \<Longrightarrow> p + n \<le> length file \<Longrightarrow>
   read_bytes file n buf (p, False) = (take n (drop p file), (p + n, False))"
  by (simp add: read_bytes_def Let_def)

lemma offsets_probe:
  "i < length m \<Longrightarrow>
   take 3 (drop (2 * i) (p # offsets p m @ rest)) =
     [p + length (run_bytes (take i m)),
      p + length (run_bytes (take i m)) + length (fst (m ! i)),
      p + length (run_bytes (take i m)) + length (fst (m ! i)) + length (snd (m ! i))]"
proof (induction m arbitrary: p i)
  case Nil
  then show ?case by simp
next
  case (Cons kv m)
  obtain k v where kv: "kv = (k, v)" by (cases kv)
  show ?case
  proof (cases i)
    case 0
    then show ?thesis by (simp add: kv)
  next
    case (Suc i')
    with Cons.prems have "i' < length m" by simp
    from Cons.IH[OF this, of "p + length k + length v"] Suc show ?thesis
      by (simp add: kv add.assoc)
  qed
qed

lemma run_bytes_split:
  assumes "i < length m"
  shows "run_bytes m = run_bytes (take i m) @ fst (m ! i) @ snd (m ! i) @ run_bytes (drop (Suc i) m)"
proof -
  have "m = take i m @ (m ! i) # drop (Suc i) m"
    using assms by (simp add: id_take_nth_drop)
  then have "run_bytes m = run_bytes (take i m @ (m ! i) # drop (Suc i) m)" by simp
  then show ?thesis
    by (cases "m ! i") (simp del: append_take_drop_id)
qed

lemma map_of_sorted_nth:
  assumes "sorted_wrt (<) (map fst (m :: run))" and "i < length m"
  shows "map_of m (fst (m ! i)) = Some (snd (m ! i))"
proof -
  from assms(1) have "distinct (map fst m)"
    by (simp add: strict_sorted_iff)
  moreover have "(fst (m ! i), snd (m ! i)) \<in> set m" using assms(2) by simp
  ultimately show ?thesis by (rule map_of_is_SomeI)
qed

lemma sorted_nth_less:
  assumes "sorted_wrt (<) (map fst (m :: run))" and "i < j" and "j < length m"
  shows "fst (m ! i) < fst (m ! j)"
  using sorted_wrt_nth_less[OF assms(1), of i j] assms(2,3) by simp

text \<open>
  The loop of \<open>binary_search\<close> on the file pair of a sorted run whose metadata ends with
  the number of its records: no read comes short, and the search returns the value of
  the key if the run holds the key between \<open>lo\<close> and \<open>hi\<close>, and false otherwise.
\<close>

lemma binary_search_sst:
  assumes srt: "sorted_wrt (<) (map fst (m :: run))"
    and len: "length m < 2 ^ 31" and bytes: "length (run_bytes m) < 2 ^ 62"
    and lo: "0 \<le> lo" and hi: "hi < int (length m)"
    and good: "\<not> snd st" "\<not> snd ds"
    and range: "\<forall>i < length m. fst (m ! i) = key \<longrightarrow> lo \<le> int i \<and> int i \<le> hi"
  shows "\<exists>value'. binary_search (run_bytes m) (0 # offsets 0 m @ [c]) lo hi key st ds value =
           Inr (case map_of m key of Some v \<Rightarrow> (True, v) | None \<Rightarrow> (False, value'))"
  using lo hi good range
proof (induction "nat (hi - lo + 1)" arbitrary: lo hi st ds "value" rule: less_induct)
  case less
  show ?case
  proof (cases "lo \<le> hi")
    case False
    have "map_of m key = None"
    proof (rule ccontr)
      assume "map_of m key \<noteq> None"
      then have "key \<in> fst ` set m" by (simp add: map_of_eq_None_iff)
      then obtain i where "i < length m" "fst (m ! i) = key"
        by (auto simp: in_set_conv_nth)
      with less.prems(5) False show False by fastforce
    qed
    with False show ?thesis
      by (subst binary_search.simps) simp
  next
    case True
    define mid where "mid = (lo + hi) div 2"
    define i where "i = nat mid"
    have mid: "lo \<le> mid" "mid \<le> hi" "0 \<le> mid" using True less.prems(1) by (auto simp: mid_def)
    have i: "i < length m" "int i = mid" using mid less.prems(2) by (auto simp: i_def)
    define s where "s = length (run_bytes (take i m))"
    define k where "k = fst (m ! i)"
    define v where "v = snd (m ! i)"
    have split: "run_bytes m = run_bytes (take i m) @ k @ v @ run_bytes (drop (Suc i) m)"
      unfolding k_def v_def by (rule run_bytes_split[OF i(1)])
    have tot: "s + length k + length v \<le> length (run_bytes m)"
      by (subst split) (simp add: s_def)
    have tk: "take (length k) (drop s (run_bytes m)) = k"
      by (subst split) (simp add: s_def)
    have tv: "take (length v) (drop (s + length k) (run_bytes m)) = v"
      by (subst split) (simp add: s_def)
    have ti: "to_int mid = mid" using mid(3) i len by (intro to_int_id) auto
    obtain idx0 fl where st: "st = (idx0, fl)" by (cases st)
    with less.prems(3) have fl: "\<not> fl" by simp
    define st' where "st' = find_idx (0 # offsets 0 m @ [c]) mid st"
    have probe: "take 3 (drop (2 * i) (0 # offsets 0 m @ [c])) = [s, s + length k, s + length k + length v]"
      using offsets_probe[OF i(1), of 0 "[c]"] by (simp add: s_def k_def v_def)
    have nat2: "nat (2 * mid) = 2 * i" using mid(3) by (simp add: i_def nat_mult_distrib)
    have st'_eq: "st' = ([s, s + length k, s + length k + length v] @ drop 3 idx0, False)"
      using mid(3) by (simp add: st'_def find_idx_def st fl ti nat2 probe Let_def) (simp add: numeral_3_eq_3)
    have idx: "fst st' ! 0 = s" "fst st' ! 1 = s + length k" "fst st' ! 2 = s + length k + length v"
      "\<not> snd st'"
      by (simp_all add: st'_eq)
    have small: "s + length k + length v < 2 ^ 62" using tot bytes by simp
    have sub1: "size_t_sub (s + length k) s = length k"
      using small by (subst size_t_sub_id) auto
    have sub2: "size_t_sub (s + length k + length v) (s + length k) = length v"
      using small by (subst size_t_sub_id) auto
    have ll: "to_long_long s = int s" using small by (intro to_long_long_id) auto
    obtain p0 f0 where ds: "ds = (p0, f0)" by (cases ds)
    with less.prems(4) have f0: "\<not> f0" by simp
    have seek: "seekg (int s) ds = (s, False)" by (simp add: seekg_def ds f0)
    obtain buf where buf: "resize (length k) value = Inr buf" "length buf = length k"
      using resize_ok[of "length k" "value"] small by (auto simp: string_max_size_def)
    have rd: "read_bytes (run_bytes m) (length k) buf (s, False) = (k, (s + length k, False))"
      using read_bytes_whole[OF buf(2), of s "run_bytes m"] tot tk by simp
    obtain buf2 where buf2: "resize (length v) k = Inr buf2" "length buf2 = length v"
      using resize_ok[of "length v" k] small by (auto simp: string_max_size_def)
    have rd2: "read_bytes (run_bytes m) (length v) buf2 (s + length k, False) = (v, (s + length k + length v, False))"
      using read_bytes_whole[OF buf2(2), of "s + length k" "run_bytes m"] tot tv by (simp add: add.assoc)
    have unfold: "binary_search (run_bytes m) (0 # offsets 0 m @ [c]) lo hi key st ds value =
        (if key < k then binary_search (run_bytes m) (0 # offsets 0 m @ [c]) lo (mid - 1) key st' (s + length k, False) k
         else if key = k then Inr (True, v)
         else binary_search (run_bytes m) (0 # offsets 0 m @ [c]) (mid + 1) hi key st' (s + length k, False) k)"
      apply (subst binary_search.simps)
      apply (simp only: True if_True Let_def mid_def[symmetric] st'_def[symmetric] idx sub1 sub2 ll seek)
      apply (simp add: buf rd buf2 rd2)
      done
    show ?thesis
    proof (cases "key < k")
      case lt: True
      have r: "\<forall>j < length m. fst (m ! j) = key \<longrightarrow> lo \<le> int j \<and> int j \<le> mid - 1"
      proof (intro allI impI)
        fix j assume j: "j < length m" "fst (m ! j) = key"
        have "j < i"
        proof (rule ccontr)
          assume "\<not> j < i"
          then have "i = j \<or> i < j" by auto
          then have "k \<le> key"
            using sorted_nth_less[OF srt, of i j] j by (auto simp: k_def)
          with lt show False by simp
        qed
        with less.prems(5) j i show "lo \<le> int j \<and> int j \<le> mid - 1" by auto
      qed
      have "nat (mid - 1 - lo + 1) < nat (hi - lo + 1)" using mid by auto
      from less.hyps[OF this less.prems(1) _ idx(4) _ r, of "(s + length k, False)" k] mid less.prems(2)
      show ?thesis by (simp add: unfold lt)
    next
      case nlt: False
      show ?thesis
      proof (cases "key = k")
        case True
        have "map_of m key = Some v"
          unfolding True k_def v_def by (rule map_of_sorted_nth[OF srt i(1)])
        with unfold True show ?thesis by simp
      next
        case ne: False
        with nlt have gt: "k < key" by auto
        have r: "\<forall>j < length m. fst (m ! j) = key \<longrightarrow> mid + 1 \<le> int j \<and> int j \<le> hi"
        proof (intro allI impI)
          fix j assume j: "j < length m" "fst (m ! j) = key"
          have "i < j"
          proof (rule ccontr)
            assume "\<not> i < j"
            then have "i = j \<or> j < i" by auto
            then have "key \<le> k"
              using sorted_nth_less[OF srt, of j i] j i(1) by (auto simp: k_def)
            with gt show False by simp
          qed
          with less.prems(5) j i show "mid + 1 \<le> int j \<and> int j \<le> hi" by auto
        qed
        have "nat (hi - (mid + 1) + 1) < nat (hi - lo + 1)" using mid by auto
        from less.hyps[OF this _ less.prems(2) idx(4) _ r, of "(s + length k, False)" k] mid
        show ?thesis by (simp add: unfold nlt ne)
      qed
    qed
  qed
qed

lemma Find_sst:
  assumes "tiers db i (Run j) = Some (sst m (length m))"
    and "sorted_wrt (<) (map fst m)" and "length m < 2 ^ 31" and "length (run_bytes m) < 2 ^ 62"
  shows "\<exists>value'. Find i j key value db =
           Inr (case map_of m key of Some v \<Rightarrow> (True, v) | None \<Rightarrow> (False, value'))"
proof -
  have ll: "to_long_long (length m) = int (length m)"
    using assms(3) by (intro to_long_long_id) auto
  have r: "\<forall>i < length m. fst (m ! i) = key \<longrightarrow> 0 \<le> int i \<and> int i \<le> int (length m) - 1"
    by auto
  from binary_search_sst[OF assms(2,3,4) _ _ _ _ r, of "([0, 0, 0], False)" "(0, False)" "length m" "value"]
  show ?thesis
    by (simp add: Find_def assms(1) sst_def ll)
qed

section \<open>The state between the calls\<close>

lemmas eval_defs = SET_def MAX_bytes_def append_to_WAL_def Let_def length_filler
  flush_begin_def flush_finish_def get_folder_def flush_table_def Rename_def clear_def DELETE_def
  TOMBSTONE_def numeral_2_eq_2[symmetric]

lemma contains_new: "\<not> contains k (BloomFilter_new h)"
  by (simp add: contains_def BloomFilter_new_def NOFILTERS_def upt_rec)


lemma run_bytes_map_assign:
  "length (run_bytes (map_assign key val m)) \<le> length (run_bytes m) + length key + length val"
  by (induction m) auto

lemma length_le_bytes:
  "\<forall>kv \<in> set (m :: run). fst kv \<noteq> [] \<Longrightarrow> length m \<le> length (run_bytes m)"
proof (induction m)
  case Nil
  then show ?case by simp
next
  case (Cons kv m)
  obtain k v where kv: "kv = (k, v)" by (cases kv)
  from Cons.prems have "k \<noteq> []" by (simp add: kv)
  then have "1 \<le> length k" by (cases k) auto
  with Cons show ?case by (auto simp: kv)
qed

lemma length_sorted_run:
  assumes "sorted_wrt (<) (map fst (m :: run))"
  shows "length m \<le> length (run_bytes m) + 1"
proof (cases m)
  case Nil
  then show ?thesis by simp
next
  case (Cons kv m')
  obtain k v where kv: "kv = (k, v)" by (cases kv)
  from assms Cons have "\<forall>x \<in> set m'. k < fst x" by (auto simp: kv)
  then have "\<forall>x \<in> set m'. fst x \<noteq> []" by auto
  from length_le_bytes[OF this] show ?thesis by (simp add: Cons kv)
qed

lemma covered_map_assign:
  assumes "list_all (\<lambda>kv. contains (fst kv) f) m"
  shows "list_all (\<lambda>kv. contains (fst kv) (add key f)) (map_assign key val m)"
proof -
  have "\<forall>x \<in> fst ` set (map_assign key val m). contains x (add key f)"
    unfolding set_map_assign using assms
    by (auto simp: list_all_iff contains_add_same contains_add_other)
  then show ?thesis by (auto simp: list_all_iff)
qed

lemma engine_ok_SET:
  assumes "SET key val db = Some (ok, db')" and "engine_ok db"
  shows "engine_ok db'"
proof (cases "MAX_bytes \<le> length key + length val")
  case True
  with assms show ?thesis by (auto simp: SET_def split: if_splits)
next
  case False
  from assms(1) have nf: "\<not> flushrunning db" by (auto simp: SET_def split: if_splits)
  from assms(2) have f0: "length (filters db ! 0) = 2" and ne: "filters db \<noteq> []"
    by (auto simp: engine_ok_def)
  have b: "length (run_bytes (map_assign key val (write_memtable db))) \<le> mem_size db + (length key + length val)"
    using run_bytes_map_assign[of key val "write_memtable db"] assms(2) by (simp add: engine_ok_def)
  have m: "mem_size db < MAX_bytes" using assms(2) nf by (simp add: engine_ok_def)
  have c: "list_all (\<lambda>kv. contains (fst kv) (add key (filters db ! 0 ! 0))) (map_assign key val (write_memtable db))"
    using assms(2) by (intro covered_map_assign) (simp add: engine_ok_def)
  have s: "sorted_wrt (<) (map fst (map_assign key val (write_memtable db)))"
    using assms(2) by (intro sorted_map_assign) (simp add: engine_ok_def)
  have r: "list_all (\<lambda>kv. contains (fst kv) ((filters db ! 0)[0 := add key (filters db ! 0 ! 0)] ! 1)) (read_memtable db)"
    using assms(2) by (simp add: engine_ok_def)
  have fl: "filters db ! 1 = filters db ! 1" by simp
  have db': "db' = (let db4 = (append_to_WAL key val db)
                \<lparr>write_memtable := map_assign key val (write_memtable db),
                  mem_size := mem_size db + (length key + length val),
                  filters := (filters db)[0 := (filters db ! 0)[0 := add key (filters db ! 0 ! 0)]]\<rparr>
              in if MAX_bytes \<le> mem_size db4 then db4\<lparr>flushrunning := True\<rparr> else db4)"
    using assms(1) False nf
    by (auto simp: SET_def Let_def append_to_WAL_def split: option.splits)
  have w: "\<And>x. write_memtable (append_to_WAL key val x) = write_memtable x"
    "\<And>x. read_memtable (append_to_WAL key val x) = read_memtable x"
    "\<And>x. filters (append_to_WAL key val x) = filters x"
    "\<And>x. levels_main (append_to_WAL key val x) = levels_main x"
    "\<And>x. mem_size (append_to_WAL key val x) = mem_size x"
    "\<And>x. ifread_memtable (append_to_WAL key val x) = ifread_memtable x"
    "\<And>x. flushrunning (append_to_WAL key val x) = flushrunning x"
    by (auto simp: append_to_WAL_def split: option.splits)
  have nth1: "1 < length (filters db) \<Longrightarrow> (filters db)[0 := (filters db ! 0)[0 := add key (filters db ! 0 ! 0)]] ! 1 = filters db ! 1"
    by simp
  show ?thesis
    using assms(2) b m c s r False f0 ne
    unfolding db' engine_ok_def Let_def
    by (auto simp: w MAX_bytes_def nth_list_update)
qed

lemma engine_ok_flush_begin:
  assumes "flush_begin db = Some db'" and "engine_ok db" and "\<not> ifread_memtable db"
  shows "engine_ok db'"
proof -
  from assms(1) obtain w where w: "logs db (WAL db) = Some w" and fr: "flushrunning db"
    by (auto simp: flush_begin_def split: if_splits option.splits)
  from assms(2,3) have r: "read_memtable db = []" by (simp add: engine_ok_def)
  from assms(2) have f0: "length (filters db ! 0) = 2" "filters db \<noteq> []"
    by (auto simp: engine_ok_def)
  show ?thesis
    using assms(1,2) w fr r f0
    by (auto simp: flush_begin_def engine_ok_def MAX_bytes_def nth_list_update)
qed

lemma engine_ok_flush_finish:
  assumes "flush_finish db = Some db'" and "engine_ok db"
  shows "engine_ok db'"
proof -
  from assms(1) have ir: "ifread_memtable db" by (auto simp: flush_finish_def split: if_splits)
  from assms(2) have lv: "length (levels_main db) = Suc 0 \<or> Suc 0 < length (levels_main db)"
    by (cases "levels_main db") (auto simp: engine_ok_def)
  from assms(2) have f0: "length (filters db ! 0) = 2" "length (filters db) = length (levels_main db)"
    by (auto simp: engine_ok_def)
  show ?thesis
    using assms(1,2) ir lv f0
    by (auto simp: flush_finish_def engine_ok_def Let_def get_folder_def Rename_def nth_list_update
        nth_append MAX_bytes_def)
qed

lemma engine_ok_event:
  assumes "apply_event e db = Some db'" and "engine_ok db"
  shows "engine_ok db'"
proof (cases e)
  case (Put k v)
  with assms(1) obtain ok where "SET k v db = Some (ok, db')" by auto
  from engine_ok_SET[OF this assms(2)] show ?thesis .
next
  case (Delete k)
  with assms(1) obtain ok where "SET k TOMBSTONE db = Some (ok, db')" by (auto simp: DELETE_def)
  from engine_ok_SET[OF this assms(2)] show ?thesis .
next
  case Flush_swap
  with assms show ?thesis by (auto split: if_splits intro: engine_ok_flush_begin)
next
  case Flush_write
  with assms show ?thesis by (auto intro: engine_ok_flush_finish)
qed

lemma engine_ok_run:
  "run_events es db = Some db' \<Longrightarrow> engine_ok db \<Longrightarrow> engine_ok db'"
  by (induction es arbitrary: db) (auto split: option.splits dest: engine_ok_event)

lemma engine_ok_fresh: "engine_ok fresh_db"
  by (simp add: engine_ok_def fresh_db_def MAX_bytes_def)



section \<open>Where the newest record of a key is\<close>

lemma flushed_Find:
  assumes "tiers db i (Run j) = Some f" and "flushed f"
  shows "\<exists>value'. Find i j key value db =
           Inr (case map_of (records_of f) key of Some v \<Rightarrow> (True, v) | None \<Rightarrow> (False, value'))"
proof -
  define m where "m = records_of f"
  from assms(2) have f: "f = sst m (length m)" and s: "sorted_wrt (<) (map fst m)"
    and b: "length (run_bytes m) < 2 ^ 31 - 1"
    by (simp_all add: flushed_def m_def)
  from length_sorted_run[OF s] b have l: "length m < 2 ^ 31" by simp
  from b have b': "length (run_bytes m) < 2 ^ 62" by simp
  from assms(1) f have t: "tiers db i (Run j) = Some (sst m (length m))" by simp
  from Find_sst[OF t s l b'] show ?thesis by (simp add: m_def)
qed

lemma in_files_GET:
  "in_files k v (filters db ! i) (tiers db i) n \<Longrightarrow> GET_files k db i n value = Inr (Returned (if v = TOMBSTONE then None else Some v))"
proof (induction n arbitrary: "value")
  case 0
  then show ?case by simp
next
  case (Suc j)
  from Suc.prems obtain f where f: "tiers db i (Run (Suc j)) = Some f" and fl: "flushed f"
    by (auto split: option.splits)
  from flushed_Find[OF f fl, of k "value"] obtain value' where
    F: "Find i (Suc j) k value db =
          Inr (case map_of (records_of f) k of Some v \<Rightarrow> (True, v) | None \<Rightarrow> (False, value'))"
    by blast
  show ?case
  proof (cases "map_of (records_of f) k")
    case None
    with Suc.prems f have "in_files k v (filters db ! i) (tiers db i) j" by simp
    from Suc.IH[OF this] show ?thesis by (simp add: F None)
  next
    case (Some v')
    with Suc.prems f have "v' = v" "contains k (filters db ! i ! j)" by simp_all
    then show ?thesis by (simp add: F Some)
  qed
qed


lemma map_of_covered:
  "list_all (\<lambda>kv. contains (fst kv) f) m \<Longrightarrow> map_of m k = Some v \<Longrightarrow> contains k f"
  by (auto simp: list_all_iff dest!: map_of_SomeD)

text \<open>The reader returns the newest record of a key.\<close>

lemma holds_GET:
  assumes "engine_ok db" and "holds k v db"
  shows "GET_two_table k db = answer v"
proof (cases "map_of (write_memtable db) k")
  case (Some v')
  with assms(2) have "v' = v" by (simp add: holds_def)
  moreover from assms(1) Some have "contains k (filters db ! 0 ! 0)"
    by (auto simp: engine_ok_def intro: map_of_covered)
  ultimately show ?thesis by (simp add: GET_two_table_def Some answer_def)
next
  case None
  show ?thesis
  proof (cases "map_of (read_memtable db) k")
    case (Some v')
    with assms(2) None have "v' = v" by (simp add: holds_def)
    moreover from assms(1) Some have "contains k (filters db ! 0 ! 1)"
      by (auto simp: engine_ok_def intro: map_of_covered)
    moreover from assms(1) Some have "ifread_memtable db"
      by (auto simp: engine_ok_def)
    ultimately show ?thesis by (simp add: GET_two_table_def None Some answer_def)
  next
    case rn: None
    with assms(2) None have l: "1 < length (levels_main db)"
      and i: "in_files k v (filters db ! 1) (tiers db 1) (levels_main db ! 1)"
      by (simp_all add: holds_def)
    from l have u: "[1..<length (levels_main db)] = 1 # [Suc 1..<length (levels_main db)]"
      by (simp add: upt_conv_Cons)
    have t: "GET_tiers k db [1..<length (levels_main db)] [] = answer v"
      using in_files_GET[OF i, of "[]"] by (subst u) (simp add: answer_def)
    then show ?thesis by (simp add: GET_two_table_def None rn)
  qed
qed








section \<open>Reading what was written\<close>




text \<open>
  C2. While a flush is in progress, a key that is not in the active table and that the
  frozen table maps to \<open>v\<close> is answered from the frozen table, whatever the tiers hold:
  the read returns \<open>v\<close>, or reports the key absent when \<open>v\<close> is \<open>TOMBSTONE\<close>.
\<close>

theorem get_reads_frozen_buffer:
  assumes "engine_ok db" and "ifread_memtable db"
    and "map_of (write_memtable db) k = None" and "map_of (read_memtable db) k = Some v"
  shows "GET_two_table k db = (if v = TOMBSTONE then Inr None else Inr (Some v))"
proof -
  from assms(3,4) have "holds k v db" by (simp add: holds_def)
  from holds_GET[OF assms(1) this] show ?thesis by (simp add: answer_def)
qed

text \<open>
  C2 on an example: after four writes the flusher has swapped the tables; \<open>a\<close> is in the
  frozen table only, and it is read.
\<close>

theorem get_reads_frozen_buffer_witness:
  "run_events [Put ''big'' filler, Put ''big'' [], Put ''a'' ''v'', Put ''p'' ''q'', Flush_swap] fresh_db = Some frozen_db \<and>
   engine_ok frozen_db \<and> ifread_memtable frozen_db \<and>
   map_of (write_memtable frozen_db) ''a'' = None \<and>
   map_of (read_memtable frozen_db) ''a'' = Some ''v'' \<and>
   GET_two_table ''a'' frozen_db = Inr (Some ''v'')"
proof -
  have 0: "run_events [Put ''big'' filler, Put ''big'' [], Put ''a'' ''v'', Put ''p'' ''q'', Flush_swap] fresh_db = Some frozen_db"
    by (simp add: frozen_db_def fresh_db_def eval_defs)
  have 1: "engine_ok frozen_db"
    using engine_ok_run[OF 0 engine_ok_fresh] .
  have 2: "ifread_memtable frozen_db" by (simp add: frozen_db_def fresh_db_def)
  have 3: "map_of (write_memtable frozen_db) ''a'' = None" by (simp add: frozen_db_def fresh_db_def)
  have 4: "map_of (read_memtable frozen_db) ''a'' = Some ''v''" by (simp add: frozen_db_def fresh_db_def)
  have 5: "''v'' \<noteq> TOMBSTONE" by (simp add: TOMBSTONE_def)
  from get_reads_frozen_buffer[OF 1 2 3 4] 0 1 2 3 4 5 show ?thesis by simp
qed



section \<open>One scan of the cursors\<close>

lemma best_select:
  assumes "best cs A key" and "\<forall>j\<in>A. n < j"
  shows "best cs (insert n A) (select cs n key)"
proof (cases key)
  case None
  with assms show ?thesis by (simp add: best_def)
next
  case (Some k)
  with assms have k: "k \<in> A" "n < k"
    and le: "\<forall>j\<in>A. fst (data (cs ! k)) \<le> fst (data (cs ! j))"
    and lt: "\<forall>j\<in>A. k < j \<longrightarrow> fst (data (cs ! k)) < fst (data (cs ! j))"
    by (auto simp: best_def)
  show ?thesis
  proof (cases "fst (data (cs ! n)) < fst (data (cs ! k))")
    case True
    have "\<forall>j\<in>A. fst (data (cs ! n)) < fst (data (cs ! j))"
      using True le by (meson less_le_trans)
    with True Some show ?thesis by (auto simp: best_def intro: less_imp_le)
  next
    case False
    then have "fst (data (cs ! k)) \<le> fst (data (cs ! n))" by simp
    with False Some k le lt assms(2) show ?thesis by (auto simp: best_def)
  qed
qed

lemma best_cong:
  assumes "best cs A key" and "\<forall>j\<in>A. cs' ! j = cs ! j"
  shows "best cs' A key"
  using assms by (auto simp: best_def split: option.splits)

lemma merge_scan_spec:
  assumes "n \<le> length cs" and "\<forall>j<n. refresh prev (cs ! j) \<noteq> None"
    and "best cs A key" and "A \<subseteq> {n..<length cs}" and "flag \<longleftrightarrow> A \<noteq> {}"
  shows "\<exists>cs' key'.
           merge_scan prev n cs key flag =
             Some (cs', key', A \<union> {j. j < n \<and> active prev (cs ! j)} \<noteq> {}) \<and>
           length cs' = length cs \<and>
           (\<forall>j<n. refresh prev (cs ! j) = Some (cs' ! j)) \<and>
           (\<forall>j. n \<le> j \<longrightarrow> cs' ! j = cs ! j) \<and>
           best cs' (A \<union> {j. j < n \<and> active prev (cs ! j)}) key'"
  using assms
proof (induction n arbitrary: cs key flag A)
  case 0
  then show ?case by simp
next
  case (Suc n)
  have n: "n < length cs" using Suc.prems(1) by simp
  have above: "\<forall>j\<in>A. n < j" using Suc.prems(4) by auto
  have split: "{j. j < Suc n \<and> active prev (cs ! j)} =
      (if active prev (cs ! n) then {n} else {}) \<union> {j. j < n \<and> active prev (cs ! j)}"
    by (auto simp: less_Suc_eq)
  show ?case
  proof (cases "prev < fst (data (cs ! n))")
    case True
    have act: "active prev (cs ! n)" using True by (simp add: active_def)
    have r: "refresh prev (cs ! n) = Some (cs ! n)" using True by (simp add: refresh_def)
    have "\<exists>cs' key'.
           merge_scan prev n cs (select cs n key) True =
             Some (cs', key', insert n A \<union> {j. j < n \<and> active prev (cs ! j)} \<noteq> {}) \<and>
           length cs' = length cs \<and>
           (\<forall>j<n. refresh prev (cs ! j) = Some (cs' ! j)) \<and>
           (\<forall>j. n \<le> j \<longrightarrow> cs' ! j = cs ! j) \<and>
           best cs' (insert n A \<union> {j. j < n \<and> active prev (cs ! j)}) key'"
    proof (rule Suc.IH)
      show "n \<le> length cs" using n by simp
      show "\<forall>j<n. refresh prev (cs ! j) \<noteq> None" using Suc.prems(2) by simp
      show "best cs (insert n A) (select cs n key)" by (rule best_select[OF Suc.prems(3) above])
      show "insert n A \<subseteq> {n..<length cs}" using Suc.prems(4) n by auto
      show "True \<longleftrightarrow> insert n A \<noteq> {}" by simp
    qed
    then obtain cs' key' where
      1: "merge_scan prev n cs (select cs n key) True =
             Some (cs', key', insert n A \<union> {j. j < n \<and> active prev (cs ! j)} \<noteq> {})"
      and 2: "length cs' = length cs"
      and 3: "\<forall>j<n. refresh prev (cs ! j) = Some (cs' ! j)"
      and 4: "\<forall>j. n \<le> j \<longrightarrow> cs' ! j = cs ! j"
      and 5: "best cs' (insert n A \<union> {j. j < n \<and> active prev (cs ! j)}) key'"
      by blast
    have eq: "A \<union> {j. j < Suc n \<and> active prev (cs ! j)} =
              insert n A \<union> {j. j < n \<and> active prev (cs ! j)}"
      using act split by auto
    have three: "\<forall>j<Suc n. refresh prev (cs ! j) = Some (cs' ! j)"
      using 3 4 r by (auto simp: less_Suc_eq)
    show ?thesis
      using True 1 2 three 4 5 unfolding eq by auto
  next
    case False
    note notpend = False
    show ?thesis
    proof (cases "src (cs ! n) \<noteq> []")
      case True
      have act: "active prev (cs ! n)" using True by (simp add: active_def)
      from Suc.prems(2) obtain c where c: "read_record (cs ! n) = Some c"
        using notpend True by (auto simp: refresh_def)
      have r: "refresh prev (cs ! n) = Some c" using notpend True c by (simp add: refresh_def)
      let ?cs1 = "cs[n := c]"
      have "\<exists>cs' key'.
             merge_scan prev n ?cs1 (select ?cs1 n key) True =
               Some (cs', key', insert n A \<union> {j. j < n \<and> active prev (?cs1 ! j)} \<noteq> {}) \<and>
             length cs' = length ?cs1 \<and>
             (\<forall>j<n. refresh prev (?cs1 ! j) = Some (cs' ! j)) \<and>
             (\<forall>j. n \<le> j \<longrightarrow> cs' ! j = ?cs1 ! j) \<and>
             best cs' (insert n A \<union> {j. j < n \<and> active prev (?cs1 ! j)}) key'"
      proof (rule Suc.IH)
        show "n \<le> length ?cs1" using n by simp
        show "\<forall>j<n. refresh prev (?cs1 ! j) \<noteq> None" using Suc.prems(2) by simp
        have "best ?cs1 A key"
          by (rule best_cong[OF Suc.prems(3)]) (use above in auto)
        then show "best ?cs1 (insert n A) (select ?cs1 n key)"
          by (rule best_select) (rule above)
        show "insert n A \<subseteq> {n..<length ?cs1}" using Suc.prems(4) n by auto
        show "True \<longleftrightarrow> insert n A \<noteq> {}" by simp
      qed
      then obtain cs' key' where
        1: "merge_scan prev n ?cs1 (select ?cs1 n key) True =
               Some (cs', key', insert n A \<union> {j. j < n \<and> active prev (?cs1 ! j)} \<noteq> {})"
        and 2: "length cs' = length ?cs1"
        and 3: "\<forall>j<n. refresh prev (?cs1 ! j) = Some (cs' ! j)"
        and 4: "\<forall>j. n \<le> j \<longrightarrow> cs' ! j = ?cs1 ! j"
        and 5: "best cs' (insert n A \<union> {j. j < n \<and> active prev (?cs1 ! j)}) key'"
        by blast
      have same_below: "{j. j < n \<and> active prev (?cs1 ! j)} = {j. j < n \<and> active prev (cs ! j)}"
        by auto
      have eq: "A \<union> {j. j < Suc n \<and> active prev (cs ! j)} =
                insert n A \<union> {j. j < n \<and> active prev (cs ! j)}"
        using act split by auto
      have three: "\<forall>j<Suc n. refresh prev (cs ! j) = Some (cs' ! j)"
        using 3 4 r n by (auto simp: less_Suc_eq)
      have four: "\<forall>j. Suc n \<le> j \<longrightarrow> cs' ! j = cs ! j"
        using 4 by auto
      show ?thesis
        using notpend True c 1 2 three four 5 unfolding eq same_below by auto
    next
      case False
      have act: "\<not> active prev (cs ! n)" using notpend False by (simp add: active_def)
      have r: "refresh prev (cs ! n) = Some (cs ! n)" using notpend False by (simp add: refresh_def)
      have "\<exists>cs' key'.
             merge_scan prev n cs key flag =
               Some (cs', key', A \<union> {j. j < n \<and> active prev (cs ! j)} \<noteq> {}) \<and>
             length cs' = length cs \<and>
             (\<forall>j<n. refresh prev (cs ! j) = Some (cs' ! j)) \<and>
             (\<forall>j. n \<le> j \<longrightarrow> cs' ! j = cs ! j) \<and>
             best cs' (A \<union> {j. j < n \<and> active prev (cs ! j)}) key'"
      proof (rule Suc.IH)
        show "n \<le> length cs" using n by simp
        show "\<forall>j<n. refresh prev (cs ! j) \<noteq> None" using Suc.prems(2) by simp
        show "best cs A key" by (rule Suc.prems(3))
        show "A \<subseteq> {n..<length cs}" using Suc.prems(4) by auto
        show "flag \<longleftrightarrow> A \<noteq> {}" by (rule Suc.prems(5))
      qed
      then obtain cs' key' where
        1: "merge_scan prev n cs key flag =
               Some (cs', key', A \<union> {j. j < n \<and> active prev (cs ! j)} \<noteq> {})"
        and 2: "length cs' = length cs"
        and 3: "\<forall>j<n. refresh prev (cs ! j) = Some (cs' ! j)"
        and 4: "\<forall>j. n \<le> j \<longrightarrow> cs' ! j = cs ! j"
        and 5: "best cs' (A \<union> {j. j < n \<and> active prev (cs ! j)}) key'"
        by blast
      have eq: "A \<union> {j. j < Suc n \<and> active prev (cs ! j)} =
                A \<union> {j. j < n \<and> active prev (cs ! j)}"
        using act split by auto
      have three: "\<forall>j<Suc n. refresh prev (cs ! j) = Some (cs' ! j)"
        using 3 4 r by (auto simp: less_Suc_eq)
      show ?thesis
        using notpend False 1 2 three 4 5 unfolding eq by auto
    qed
  qed
qed

section \<open>Cursors on runs\<close>

lemma cur_src: "cur c recs \<Longrightarrow> src c \<noteq> [] \<longleftrightarrow> recs \<noteq> []"
  by (auto simp: cur_def)

lemma open_cursor_sst:
  "\<exists>c. open_cursor (sst recs n) = Some c \<and> cur c (visible recs) \<and> data c = ([], [])"
  by (auto simp: open_cursor_def sst_def cur_def visible_def)

lemma nonempty_keys_bytes:
  assumes "\<forall>k \<in> fst ` set recs. k \<noteq> []" and "run_bytes recs = []"
  shows "recs = []"
  using assms by (cases recs) auto

lemma read_record_cur:
  assumes "cur c ((k, v) # rest)" and "run_bytes rest = [] \<longrightarrow> rest = []"
  shows "\<exists>c'. read_record c = Some c' \<and> data c' = (k, v) \<and> cur c' rest"
proof -
  from assms(1) obtain tl where
    s: "src c = k @ v @ run_bytes rest" and
    m: "meta_src c = (pre_idx c + length k) # (pre_idx c + length k + length v) #
          offsets (pre_idx c + length k + length v) rest @ tl"
    by (auto simp: cur_def)
  show ?thesis
    using assms(2) by (simp add: read_record_def m s cur_def)
qed

lemma sorted_tail_nonempty_keys:
  assumes "sorted_wrt (<) (map fst ((k, v) # rest))"
  shows "\<forall>k' \<in> fst ` set rest. k' \<noteq> []"
proof
  fix k' assume "k' \<in> fst ` set rest"
  with assms have "k < k'" by auto
  then show "k' \<noteq> []" by auto
qed

text \<open>What one scan does to one cursor.\<close>

lemma refresh_inv1:
  assumes "inv1 prev c r"
  shows "\<exists>c'. refresh prev c = Some c' \<and>
           (active prev c \<longleftrightarrow> pend prev c r \<noteq> []) \<and>
           (pend prev c r \<noteq> [] \<longrightarrow> data c' = hd (pend prev c r) \<and> cur c' (tl (pend prev c r))) \<and>
           (pend prev c r = [] \<longrightarrow> c' = c \<and> r = [])"
proof (cases "prev < fst (data c)")
  case True
  with assms show ?thesis
    by (auto simp: refresh_def active_def pend_def inv1_def)
next
  case False
  then have p: "pend prev c r = r" by (simp add: pend_def)
  from assms have c: "cur c r" and s: "sorted_wrt (<) (map fst r)"
    by (simp_all add: inv1_def p)
  show ?thesis
  proof (cases r)
    case Nil
    with False c show ?thesis
      by (auto simp: refresh_def active_def pend_def cur_def)
  next
    case (Cons kv rest)
    obtain k v where kv: "kv = (k, v)" by (cases kv)
    have ne: "run_bytes rest = [] \<longrightarrow> rest = []"
      using sorted_tail_nonempty_keys[of k v rest] s nonempty_keys_bytes[of rest]
      by (auto simp: Cons kv)
    from read_record_cur[of c k v rest] c ne obtain c' where
      "read_record c = Some c'" "data c' = (k, v)" "cur c' rest"
      by (auto simp: Cons kv)
    moreover have "src c \<noteq> []" using cur_src[OF c] Cons by simp
    ultimately show ?thesis
      using False by (auto simp: refresh_def active_def pend_def Cons kv)
  qed
qed

section \<open>The merged run\<close>

lemma finite_keys_of [simp]: "finite (keys_of runs)"
  by (simp add: keys_of_def)

lemma last_filter_nth:
  assumes "j < length xs" and "P (xs ! j)" and "\<forall>i. j < i \<and> i < length xs \<longrightarrow> \<not> P (xs ! i)"
  shows "List.filter P xs \<noteq> [] \<and> last (List.filter P xs) = xs ! j"
proof -
  have xs: "xs = take j xs @ xs ! j # drop (Suc j) xs"
    using assms(1) by (rule id_take_nth_drop)
  have "\<forall>x \<in> set (drop (Suc j) xs). \<not> P x"
  proof
    fix x assume "x \<in> set (drop (Suc j) xs)"
    then obtain i where "i < length (drop (Suc j) xs)" "x = drop (Suc j) xs ! i"
      by (auto simp: in_set_conv_nth)
    then have "x = xs ! (Suc j + i)" "Suc j + i < length xs" by auto
    with assms(3) show "\<not> P x" by auto
  qed
  then have "List.filter P (drop (Suc j) xs) = []" by (simp add: filter_empty_conv)
  then have "List.filter P xs = List.filter P (take j xs) @ [xs ! j]"
    using assms(2) by (subst xs) simp
  then show ?thesis by simp
qed

lemma newest_nth:
  assumes "j < length runs" and "k \<in> fst ` set (runs ! j)"
    and "\<forall>i. j < i \<and> i < length runs \<longrightarrow> k \<notin> fst ` set (runs ! i)"
  shows "newest runs k = map_of (runs ! j) k"
  using last_filter_nth[of j runs "\<lambda>r. k \<in> fst ` set r"] assms
  by (auto simp: newest_def split: list.splits)

lemma sorted_head_min:
  fixes P :: run
  assumes "sorted_wrt (<) (map fst P)" and "k \<in> fst ` set P"
  shows "P \<noteq> [] \<and> fst (hd P) \<le> k"
  using assms by (cases P) (auto intro: less_imp_le)

lemma sorted_key_at_head:
  fixes P :: run
  assumes "sorted_wrt (<) (map fst P)" and "k \<in> fst ` set P" and "k \<le> fst (hd P)"
  shows "fst (hd P) = k \<and> map_of P k = Some (snd (hd P))"
  using assms by (cases P) auto

lemma keys_advance:
  assumes "sorted_wrt (<) (map fst P)" and "\<forall>k' \<in> fst ` set P. k \<le> k'"
  shows "fst ` set (advance k P) = fst ` set P - {k}"
proof (cases "P \<noteq> [] \<and> fst (hd P) = k")
  case True
  then obtain v rest where P: "P = (k, v) # rest" by (cases P) auto
  with assms(1) have "k \<notin> fst ` set rest" by auto
  with P show ?thesis by (auto simp: advance_def)
next
  case False
  have "k \<notin> fst ` set P"
  proof
    assume "k \<in> fst ` set P"
    with sorted_head_min[OF assms(1) this] assms(2) False show False
      by (cases P) auto
  qed
  with False show ?thesis by (auto simp: advance_def)
qed

lemma map_of_advance: "k' \<noteq> k \<Longrightarrow> map_of (advance k P) k' = map_of P k'"
  by (cases P) (auto simp: advance_def)

lemma in_keys_advance:
  "k' \<noteq> k \<Longrightarrow> k' \<in> fst ` set (advance k P) \<longleftrightarrow> k' \<in> fst ` set P"
  by (cases P) (auto simp: advance_def)

lemma newest_advance:
  assumes "k' \<noteq> k"
  shows "newest (map (advance k) Ps) k' = newest Ps k'"
proof -
  have f: "List.filter (\<lambda>r. k' \<in> fst ` set r) (map (advance k) Ps) =
           map (advance k) (List.filter (\<lambda>r. k' \<in> fst ` set r) Ps)"
    using assms by (induction Ps) (auto simp: in_keys_advance)
  show ?thesis
    unfolding newest_def f using assms
  proof (cases "List.filter (\<lambda>r. k' \<in> fst ` set r) Ps")
    case Nil
    then show "(case map (advance k) (List.filter (\<lambda>r. k' \<in> fst ` set r) Ps) of
                  [] \<Rightarrow> None | r # rs \<Rightarrow> map_of (last (r # rs)) k') =
               (case List.filter (\<lambda>r. k' \<in> fst ` set r) Ps of
                  [] \<Rightarrow> None | r # rs \<Rightarrow> map_of (last (r # rs)) k')"
      by simp
  next
    case (Cons a list)
    have "last (map (advance k) (a # list)) = advance k (last (a # list))"
      by (rule last_map) simp
    then show "(case map (advance k) (List.filter (\<lambda>r. k' \<in> fst ` set r) Ps) of
                  [] \<Rightarrow> None | r # rs \<Rightarrow> map_of (last (r # rs)) k') =
               (case List.filter (\<lambda>r. k' \<in> fst ` set r) Ps of
                  [] \<Rightarrow> None | r # rs \<Rightarrow> map_of (last (r # rs)) k')"
      using assms by (simp add: Cons map_of_advance del: last.simps)
  qed
qed

text \<open>
  One step of the merge on sorted lists: the smallest head key comes first, with the value
  of the highest-indexed list that holds it, and every list that holds it moves on.
\<close>

lemma merged_step:
  assumes sorted: "\<forall>P \<in> set Ps. sorted_wrt (<) (map fst P)"
    and j: "j < length Ps" "Ps ! j \<noteq> []"
    and le: "\<forall>i < length Ps. Ps ! i \<noteq> [] \<longrightarrow> fst (hd (Ps ! j)) \<le> fst (hd (Ps ! i))"
    and lt: "\<forall>i < length Ps. Ps ! i \<noteq> [] \<longrightarrow> j < i \<longrightarrow> fst (hd (Ps ! j)) < fst (hd (Ps ! i))"
  shows "merged Ps = hd (Ps ! j) # merged (map (advance (fst (hd (Ps ! j)))) Ps)"
    and "\<forall>k \<in> keys_of Ps. fst (hd (Ps ! j)) \<le> k"
proof -
  let ?k = "fst (hd (Ps ! j))"
  have kin: "?k \<in> keys_of Ps"
    using j by (auto simp: keys_of_def intro!: bexI[of _ "Ps ! j"] image_eqI[of _ _ "hd (Ps ! j)"])
  show min: "\<forall>k \<in> keys_of Ps. ?k \<le> k"
  proof
    fix k assume "k \<in> keys_of Ps"
    then obtain P where "P \<in> set Ps" "k \<in> fst ` set P"
      by (auto simp: keys_of_def)
    then obtain i where i: "i < length Ps" "k \<in> fst ` set (Ps ! i)"
      by (metis in_set_conv_nth)
    with sorted have "Ps ! i \<noteq> [] \<and> fst (hd (Ps ! i)) \<le> k"
      by (intro sorted_head_min) auto
    with le i show "?k \<le> k" by (meson order_trans)
  qed
  have Min: "Min (keys_of Ps) = ?k"
    using kin min by (intro Min_eqI) auto
  have keys': "keys_of (map (advance ?k) Ps) = keys_of Ps - {?k}"
  proof -
    have "\<And>P. P \<in> set Ps \<Longrightarrow> fst ` set (advance ?k P) = fst ` set P - {?k}"
      using sorted min by (intro keys_advance) (auto simp: keys_of_def)
    then show ?thesis by (auto simp: keys_of_def)
  qed
  have above: "\<forall>i. j < i \<and> i < length Ps \<longrightarrow> ?k \<notin> fst ` set (Ps ! i)"
  proof (intro allI impI notI)
    fix i assume i: "j < i \<and> i < length Ps" and "?k \<in> fst ` set (Ps ! i)"
    with sorted have "Ps ! i \<noteq> [] \<and> fst (hd (Ps ! i)) \<le> ?k"
      by (intro sorted_head_min) auto
    with lt i show False by auto
  qed
  have inj: "?k \<in> fst ` set (Ps ! j)" using j by (cases "Ps ! j") auto
  have "newest Ps ?k = map_of (Ps ! j) ?k"
    by (rule newest_nth[OF j(1) inj above])
  also have "\<dots> = Some (snd (hd (Ps ! j)))"
    using j by (cases "Ps ! j") auto
  finally have nk: "newest Ps ?k = Some (snd (hd (Ps ! j)))" .
  have "sorted_list_of_set (keys_of Ps) = ?k # sorted_list_of_set (keys_of Ps - {?k})"
    using kin Min sorted_list_of_set_nonempty[of "keys_of Ps"] by auto
  moreover have "map (\<lambda>k. (k, the (newest Ps k))) (sorted_list_of_set (keys_of Ps - {?k})) =
                 map (\<lambda>k. (k, the (newest (map (advance ?k) Ps) k))) (sorted_list_of_set (keys_of Ps - {?k}))"
    by (rule map_cong) (auto simp: newest_advance)
  ultimately show "merged Ps = hd (Ps ! j) # merged (map (advance ?k) Ps)"
    by (simp add: merged_def keys' nk)
qed

lemma merged_empty: "\<forall>P \<in> set Ps. P = [] \<Longrightarrow> merged Ps = []"
  by (simp add: merged_def keys_of_def)

lemma sorted_merged: "sorted_wrt (<) (map fst (merged runs))"
proof -
  have "map fst (merged runs) = sorted_list_of_set (keys_of runs)"
    by (simp add: merged_def comp_def)
  then show ?thesis
    by (simp add: strict_sorted_iff[symmetric])
qed

lemma sorted_keep: "sorted_wrt (<) (map fst recs) \<Longrightarrow> sorted_wrt (<) (map fst (keep last' recs))"
  unfolding keep_def by (induction recs) auto

lemma newest_Some:
  assumes "k \<in> keys_of runs"
  shows "\<exists>v. newest runs k = Some v"
proof -
  from assms have ne: "List.filter (\<lambda>r. k \<in> fst ` set r) runs \<noteq> []"
    by (auto simp: keys_of_def filter_empty_conv)
  then have "last (List.filter (\<lambda>r. k \<in> fst ` set r) runs) \<in> set (List.filter (\<lambda>r. k \<in> fst ` set r) runs)"
    by (rule last_in_set)
  then have "k \<in> fst ` set (last (List.filter (\<lambda>r. k \<in> fst ` set r) runs))" by simp
  then have "map_of (last (List.filter (\<lambda>r. k \<in> fst ` set r) runs)) k \<noteq> None"
    by (simp add: map_of_eq_None_iff)
  with ne show ?thesis
    by (cases "List.filter (\<lambda>r. k \<in> fst ` set r) runs") (auto simp: newest_def simp del: last.simps)
qed

lemma newest_in_keys:
  assumes "newest runs k = Some v"
  shows "k \<in> keys_of runs"
proof -
  let ?f = "List.filter (\<lambda>r. k \<in> fst ` set r) runs"
  from assms have ne: "?f \<noteq> []" by (auto simp: newest_def)
  then have "last ?f \<in> set ?f" by (rule last_in_set)
  then have "last ?f \<in> set runs" "k \<in> fst ` set (last ?f)" by simp_all
  then show ?thesis unfolding keys_of_def by blast
qed

lemma set_merged: "set (merged runs) = {(k, v). newest runs k = Some v}"
proof (intro set_eqI iffI)
  fix kv assume "kv \<in> set (merged runs)"
  then obtain k where k: "k \<in> keys_of runs" "kv = (k, the (newest runs k))"
    by (auto simp: merged_def)
  with newest_Some[OF k(1)] show "kv \<in> {(k, v). newest runs k = Some v}" by auto
next
  fix kv assume "kv \<in> {(k, v). newest runs k = Some v}"
  then obtain k v where kv: "kv = (k, v)" "newest runs k = Some v" by auto
  with newest_in_keys[OF kv(2)] show "kv \<in> set (merged runs)"
    by (auto simp: merged_def intro!: image_eqI[of _ _ k])
qed

section \<open>The loop of merge\<close>

lemma length_pends [simp]: "length (pends prev cs rs) = length cs"
  by (simp add: pends_def)

lemma nth_pends [simp]: "j < length cs \<Longrightarrow> pends prev cs rs ! j = pend prev (cs ! j) (rs ! j)"
  by (simp add: pends_def)

lemma inv1_advance:
  assumes i: "inv1 prev c r" and r: "refresh prev c = Some c'"
    and lo: "prev \<le> k" and hi: "pend prev c r \<noteq> [] \<longrightarrow> k \<le> fst (hd (pend prev c r))"
  shows "inv1 k c' (tl (pend prev c r)) \<and>
         pend k c' (tl (pend prev c r)) = advance k (pend prev c r)"
proof -
  let ?P = "pend prev c r"
  from refresh_inv1[OF i] r have
    ne: "?P \<noteq> [] \<longrightarrow> data c' = hd ?P \<and> cur c' (tl ?P)" and
    em: "?P = [] \<longrightarrow> c' = c \<and> r = []"
    by auto
  from i have s: "sorted_wrt (<) (map fst ?P)" and c: "cur c r"
    by (simp_all add: inv1_def)
  show ?thesis
  proof (cases "?P = []")
    case True
    with em have cc: "c' = c" "r = []" by auto
    from True have "\<not> prev < fst (data c)" by (auto simp: pend_def split: if_splits)
    with lo have "\<not> k < fst (data c)" by auto
    with True cc c show ?thesis
      by (simp add: inv1_def pend_def advance_def)
  next
    case False
    then obtain kv rest where P: "?P = kv # rest" by (cases ?P) auto
    with ne have d: "data c' = kv" and cr: "cur c' rest" by auto
    from hi P have kle: "k \<le> fst kv" by simp
    from s P have srest: "sorted_wrt (<) (map fst rest)" and gt: "\<forall>x \<in> set rest. fst kv < fst x"
      by auto
    show ?thesis
    proof (cases "k < fst kv")
      case True
      then have ge: "\<forall>x \<in> set rest. k \<le> fst x"
        using gt by (meson less_imp_le less_trans)
      from True have "fst kv \<noteq> k" by auto
      with True P d cr s ge show ?thesis
        by (auto simp: inv1_def pend_def advance_def intro: less_imp_le)
    next
      case False
      with kle have eq: "fst kv = k" by auto
      with gt have ge: "\<forall>x \<in> set rest. k \<le> fst x" by (auto intro: less_imp_le)
      from False eq P d cr srest ge show ?thesis
        by (auto simp: inv1_def pend_def advance_def)
    qed
  qed
qed

text \<open>One iteration of \<open>while (1)\<close> from a state that satisfies the invariant.\<close>

lemma scan_step:
  assumes "inv prev cs rs"
  shows "\<exists>cs' key'.
           merge_scan prev (length cs) cs None False =
             Some (cs', key', \<exists>P \<in> set (pends prev cs rs). P \<noteq> []) \<and>
           ((\<forall>P \<in> set (pends prev cs rs). P = []) \<or>
            (\<exists>j < length cs. key' = Some j \<and> pends prev cs rs ! j \<noteq> [] \<and>
               data (cs' ! j) = hd (pends prev cs rs ! j) \<and>
               length cs' = length cs \<and>
               inv (fst (hd (pends prev cs rs ! j))) cs' (map tl (pends prev cs rs)) \<and>
               pends (fst (hd (pends prev cs rs ! j))) cs' (map tl (pends prev cs rs)) =
                 map (advance (fst (hd (pends prev cs rs ! j)))) (pends prev cs rs) \<and>
               merged (pends prev cs rs) =
                 hd (pends prev cs rs ! j) #
                 merged (map (advance (fst (hd (pends prev cs rs ! j)))) (pends prev cs rs))))"
proof -
  let ?Ps = "pends prev cs rs"
  let ?n = "length cs"
  have i1: "\<And>j. j < ?n \<Longrightarrow> inv1 prev (cs ! j) (rs ! j)"
    using assms by (simp add: inv_def)
  have ref: "\<forall>j < ?n. refresh prev (cs ! j) \<noteq> None"
    using refresh_inv1[OF i1] by auto
  from merge_scan_spec[of ?n cs prev "{}" None False] ref
  obtain cs' key' where
    scan: "merge_scan prev ?n cs None False =
             Some (cs', key', {j. j < ?n \<and> active prev (cs ! j)} \<noteq> {})"
    and len: "length cs' = ?n"
    and r: "\<forall>j < ?n. refresh prev (cs ! j) = Some (cs' ! j)"
    and b: "best cs' {j. j < ?n \<and> active prev (cs ! j)} key'"
    by (auto simp: best_def)
  have act: "\<And>j. j < ?n \<Longrightarrow> active prev (cs ! j) \<longleftrightarrow> ?Ps ! j \<noteq> []"
    using refresh_inv1[OF i1] by auto
  have A: "{j. j < ?n \<and> active prev (cs ! j)} = {j. j < ?n \<and> ?Ps ! j \<noteq> []}"
    using act by auto
  have "(\<exists>P \<in> set ?Ps. P \<noteq> []) \<longleftrightarrow> (\<exists>j < length ?Ps. ?Ps ! j \<noteq> [])"
    by (metis in_set_conv_nth)
  then have flag: "({j. j < ?n \<and> active prev (cs ! j)} \<noteq> {}) \<longleftrightarrow> (\<exists>P \<in> set ?Ps. P \<noteq> [])"
    unfolding A by auto
  have hdj: "\<And>j. j < ?n \<Longrightarrow> ?Ps ! j \<noteq> [] \<Longrightarrow> data (cs' ! j) = hd (?Ps ! j)"
    using refresh_inv1[OF i1] r by fastforce
  show ?thesis
  proof (cases "\<forall>P \<in> set ?Ps. P = []")
    case True
    with scan flag show ?thesis by simp
  next
    case False
    then have ne: "{j. j < ?n \<and> ?Ps ! j \<noteq> []} \<noteq> {}"
      using flag A by simp
    from b have b': "best cs' {j. j < ?n \<and> ?Ps ! j \<noteq> []} key'"
      unfolding A .
    from b' ne obtain j where key: "key' = Some j"
      by (cases key') (simp_all add: best_def)
    from b' have j: "j < ?n" "?Ps ! j \<noteq> []"
      and le: "\<forall>i. i < ?n \<and> ?Ps ! i \<noteq> [] \<longrightarrow> fst (data (cs' ! j)) \<le> fst (data (cs' ! i))"
      and lt: "\<forall>i. i < ?n \<and> ?Ps ! i \<noteq> [] \<longrightarrow> j < i \<longrightarrow> fst (data (cs' ! j)) < fst (data (cs' ! i))"
      unfolding key best_def option.case by blast+
    let ?k = "fst (hd (?Ps ! j))"
    have dj: "data (cs' ! j) = hd (?Ps ! j)" using hdj j by simp
    have le': "\<forall>i < length ?Ps. ?Ps ! i \<noteq> [] \<longrightarrow> ?k \<le> fst (hd (?Ps ! i))"
      using le hdj dj by auto
    have lt': "\<forall>i < length ?Ps. ?Ps ! i \<noteq> [] \<longrightarrow> j < i \<longrightarrow> ?k < fst (hd (?Ps ! i))"
      using lt hdj dj by auto
    have sorted: "\<forall>P \<in> set ?Ps. sorted_wrt (<) (map fst P)"
    proof
      fix P assume "P \<in> set ?Ps"
      then obtain i where "i < ?n" "P = ?Ps ! i" by (auto simp: in_set_conv_nth)
      with i1[of i] show "sorted_wrt (<) (map fst P)" by (simp add: inv1_def)
    qed
    have jP: "j < length ?Ps" using j by simp
    note ms = merged_step[OF sorted jP j(2) le' lt']
    have lo: "prev \<le> ?k"
    proof -
      have "?k \<in> fst ` set (pend prev (cs ! j) (rs ! j))"
        using j by (cases "?Ps ! j") auto
      with i1[OF j(1)] show ?thesis by (auto simp: inv1_def)
    qed
    have adv: "\<And>i. i < ?n \<Longrightarrow>
        inv1 ?k (cs' ! i) (tl (?Ps ! i)) \<and> pend ?k (cs' ! i) (tl (?Ps ! i)) = advance ?k (?Ps ! i)"
    proof -
      fix i assume i: "i < ?n"
      have "inv1 ?k (cs' ! i) (tl (pend prev (cs ! i) (rs ! i))) \<and>
            pend ?k (cs' ! i) (tl (pend prev (cs ! i) (rs ! i))) = advance ?k (pend prev (cs ! i) (rs ! i))"
      proof (rule inv1_advance[OF i1[OF i] _ lo])
        show "refresh prev (cs ! i) = Some (cs' ! i)" using r i by simp
        show "pend prev (cs ! i) (rs ! i) \<noteq> [] \<longrightarrow> ?k \<le> fst (hd (pend prev (cs ! i) (rs ! i)))"
          using le' i by simp
      qed
      then show "inv1 ?k (cs' ! i) (tl (?Ps ! i)) \<and>
                 pend ?k (cs' ! i) (tl (?Ps ! i)) = advance ?k (?Ps ! i)"
        using i by simp
    qed
    have inv': "inv ?k cs' (map tl ?Ps)"
      using adv len by (simp add: inv_def)
    have pends': "pends ?k cs' (map tl ?Ps) = map (advance ?k) ?Ps"
      using adv len by (intro nth_equalityI) simp_all
    have scan': "merge_scan prev ?n cs None False = Some (cs', key', \<exists>P \<in> set ?Ps. P \<noteq> [])"
      using scan flag by simp
    have "\<exists>j < length cs. key' = Some j \<and> ?Ps ! j \<noteq> [] \<and>
               data (cs' ! j) = hd (?Ps ! j) \<and>
               length cs' = length cs \<and>
               inv (fst (hd (?Ps ! j))) cs' (map tl ?Ps) \<and>
               pends (fst (hd (?Ps ! j))) cs' (map tl ?Ps) =
                 map (advance (fst (hd (?Ps ! j)))) ?Ps \<and>
               merged ?Ps = hd (?Ps ! j) # merged (map (advance (fst (hd (?Ps ! j)))) ?Ps)"
      using key j dj len inv' pends' ms(1) by blast
    with scan' show ?thesis by blast
  qed
qed

lemma sum_length_advance:
  assumes "j < length Ps" and "Ps ! j \<noteq> []"
  shows "sum_list (map length (map (advance (fst (hd (Ps ! j)))) Ps)) < sum_list (map length Ps)"
proof -
  let ?k = "fst (hd (Ps ! j))"
  have le: "\<And>P. length (advance ?k P) \<le> length P"
    by (simp add: advance_def)
  have lt: "length (advance ?k (Ps ! j)) < length (Ps ! j)"
    using assms(2) by (simp add: advance_def)
  have Ps: "Ps = take j Ps @ Ps ! j # drop (Suc j) Ps"
    using assms(1) by (rule id_take_nth_drop)
  have a: "sum_list (map length (map (advance ?k) (take j Ps))) \<le> sum_list (map length (take j Ps))"
    by (simp add: comp_def le sum_list_mono)
  have b: "sum_list (map length (map (advance ?k) (drop (Suc j) Ps))) \<le> sum_list (map length (drop (Suc j) Ps))"
    by (simp add: comp_def le sum_list_mono)
  have "sum_list (map length (map (advance ?k) (take j Ps @ Ps ! j # drop (Suc j) Ps)))
        < sum_list (map length (take j Ps @ Ps ! j # drop (Suc j) Ps))"
    using a b lt by simp
  then show ?thesis using Ps by simp
qed

lemma merge_loop_correct:
  assumes "inv prev cs rs"
  shows "merge_loop last' cs prev out = Some (foldl (emit last') out (merged (pends prev cs rs)))"
  using assms
proof (induction "sum_list (map length (pends prev cs rs))" arbitrary: prev cs rs out rule: less_induct)
  case less
  let ?Ps = "pends prev cs rs"
  from scan_step[OF less.prems] obtain cs' key' where
    scan: "merge_scan prev (length cs) cs None False = Some (cs', key', \<exists>P \<in> set ?Ps. P \<noteq> [])"
    and alt: "(\<forall>P \<in> set ?Ps. P = []) \<or>
            (\<exists>j < length cs. key' = Some j \<and> ?Ps ! j \<noteq> [] \<and>
               data (cs' ! j) = hd (?Ps ! j) \<and>
               length cs' = length cs \<and>
               inv (fst (hd (?Ps ! j))) cs' (map tl ?Ps) \<and>
               pends (fst (hd (?Ps ! j))) cs' (map tl ?Ps) = map (advance (fst (hd (?Ps ! j)))) ?Ps \<and>
               merged ?Ps = hd (?Ps ! j) # merged (map (advance (fst (hd (?Ps ! j)))) ?Ps))"
    by blast
  show ?case
  proof (cases "\<forall>P \<in> set ?Ps. P = []")
    case True
    then have "merged ?Ps = []" by (rule merged_empty)
    with True scan show ?thesis
      by (subst merge_loop.simps) simp
  next
    case False
    with alt obtain j where j: "j < length cs" and key: "key' = Some j" and ne: "?Ps ! j \<noteq> []"
      and d: "data (cs' ! j) = hd (?Ps ! j)"
      and inv': "inv (fst (hd (?Ps ! j))) cs' (map tl ?Ps)"
      and p': "pends (fst (hd (?Ps ! j))) cs' (map tl ?Ps) = map (advance (fst (hd (?Ps ! j)))) ?Ps"
      and m: "merged ?Ps = hd (?Ps ! j) # merged (map (advance (fst (hd (?Ps ! j)))) ?Ps)"
      by blast
    let ?k = "fst (hd (?Ps ! j))"
    have dec: "sum_list (map length (pends ?k cs' (map tl ?Ps))) < sum_list (map length ?Ps)"
      unfolding p' using j ne by (intro sum_length_advance) simp_all
    have IH: "merge_loop last' cs' ?k (emit last' out (hd (?Ps ! j))) =
              Some (foldl (emit last') (emit last' out (hd (?Ps ! j))) (merged (pends ?k cs' (map tl ?Ps))))"
      by (rule less.hyps[OF dec inv'])
    have flag: "\<exists>P \<in> set ?Ps. P \<noteq> []" using False by simp
    have "merge_loop last' cs prev out =
          merge_loop last' cs' ?k (emit last' out (hd (?Ps ! j)))"
      by (subst merge_loop.simps) (simp add: scan flag key d emit_def)
    with IH show ?thesis
      by (simp add: m p')
  qed
qed

section \<open>What merge writes\<close>

lemma foldl_emit:
  "foldl (emit last') out recs =
     \<lparr>dest = dest out @ run_bytes (keep last' recs),
      meta_dest = meta_dest out @ offsets (tot_len out) (keep last' recs),
      tot_len = tot_len out + length (run_bytes (keep last' recs)),
      count = count out + 2 * length (keep last' recs),
      temp1 = fold add (map fst (keep last' recs)) (temp1 out)\<rparr>"
proof (induction recs arbitrary: out)
  case Nil
  then show ?case by (simp add: keep_def)
next
  case (Cons kv recs)
  obtain k v where kv: "kv = (k, v)" by (cases kv)
  show ?case
    by (simp add: Cons.IH) (simp add: emit_def Write_def keep_def kv add.assoc)
qed

lemma those_map_Some:
  assumes "\<forall>x \<in> set xs. f x = Some (g x)"
  shows "those (map f xs) = Some (map g xs)"
  using assms by (induction xs) auto

text \<open>
  The merge of sorted runs. The output holds the merged records of the runs that have a
  byte in their data file, without the tombstones when \<open>last\<close> is set; its metadata ends
  with twice their number; the filter has their keys.
\<close>

lemma merge_sorted_runs:
  assumes "\<forall>r \<in> set runs. sorted_wrt (<) (map fst r)"
  shows "merge (map (\<lambda>r. sst r (n r)) runs) t last' =
           Some (sst (keep last' (merged (map visible runs)))
                     (2 * length (keep last' (merged (map visible runs)))),
                 fold add (map fst (keep last' (merged (map visible runs)))) t)"
proof -
  define c0 where "c0 = (\<lambda>r. the (open_cursor (sst r (n r))))"
  have oc: "\<And>r. open_cursor (sst r (n r)) = Some (c0 r) \<and> cur (c0 r) (visible r) \<and> data (c0 r) = ([], [])"
    using open_cursor_sst unfolding c0_def by (metis option.sel)
  have th: "those (map open_cursor (map (\<lambda>r. sst r (n r)) runs)) = Some (map c0 runs)"
    unfolding map_map comp_def by (rule those_map_Some) (simp add: oc)
  have vis_sorted: "\<And>r. r \<in> set runs \<Longrightarrow> sorted_wrt (<) (map fst (visible r))"
    using assms by (simp add: visible_def)
  have i: "inv [] (map c0 runs) (map visible runs)"
    unfolding inv_def
  proof (intro conjI allI impI)
    show "length (map visible runs) = length (map c0 runs)" by simp
    fix j assume "j < length (map c0 runs)"
    then have j: "j < length runs" by simp
    then have "runs ! j \<in> set runs" by simp
    with vis_sorted oc[of "runs ! j"] j
    show "inv1 [] (map c0 runs ! j) (map visible runs ! j)"
      by (simp add: inv1_def pend_def)
  qed
  have p: "pends [] (map c0 runs) (map visible runs) = map visible runs"
    by (intro nth_equalityI) (simp_all add: pend_def oc)
  show ?thesis
    unfolding merge_def th
    by (simp add: merge_loop_correct[OF i] p foldl_emit) (simp add: sst_def)
qed

text \<open>The keys of the output are strictly increasing.\<close>

lemma merge_output_sorted:
  assumes "\<forall>r \<in> set runs. sorted_wrt (<) (map fst r)"
  shows "\<exists>f t'. merge (map (\<lambda>r. sst r (n r)) runs) t last' = Some (f, t') \<and>
           sorted_wrt (<) (map fst (records_of f))"
  using merge_sorted_runs[OF assms, of n t last']
  by (simp add: sorted_keep sorted_merged)

lemmas merge_eval = merge_def open_cursor_def merge_loop.simps read_record_def Write_def
  flush_table_def records_of_def TOMBSTONE_def

text \<open>One run with one record: the metadata that \<open>merge\<close> writes ends with 2.\<close>

lemma merge_count_is_doubled:
  "map_option (metadata \<circ> fst) (merge one_run_tier t0 False) = Some [0, 1, 2, 2] \<and>
   map_option (records_of \<circ> fst) (merge one_run_tier t0 False) = Some [(''a'', ''1'')]"
  by (simp add: one_run_tier_def merge_eval)

text \<open>
  C5. Four runs of one tier, as \<open>FLUSH\<close> writes them: the oldest holds the empty key with
  the value \<open>x\<close>, the newest holds the empty key with the empty value, so its data file has
  no byte. \<open>merge\<close> emits the empty key with the value \<open>x\<close> of the oldest run: it tests the
  end of a run with \<open>src[j].peek() != EOF\<close> on the data file and never reads the record of
  the newest run.
\<close>

theorem merge_emits_older_value:
  "map bin stub_tier = [''x'', ''k1'', ''m2'', []] \<and>
   map metadata stub_tier = [[0, 0, 1, 1], [0, 1, 2, 1], [0, 1, 2, 1], [0, 0, 0, 1]] \<and>
   map records_of stub_tier = [[([], ''x'')], [(''k'', ''1'')], [(''m'', ''2'')], [([], [])]] \<and>
   map_option (bin \<circ> fst) (merge stub_tier t0 False) = Some ''xk1m2'' \<and>
   map_option (metadata \<circ> fst) (merge stub_tier t0 False) = Some [0, 0, 1, 2, 3, 4, 5, 6] \<and>
   map_option (records_of \<circ> fst) (merge stub_tier t0 False) =
     Some [([], ''x''), (''k'', ''1''), (''m'', ''2'')]"
  by (simp add: stub_tier_def merge_eval)

section \<open>Compaction\<close>

lemma tier_files_get_folder:
  "i < length (levels_main db) \<Longrightarrow> tier_files (get_folder j db) i = tier_files db i"
  by (simp add: tier_files_def get_folder_def nth_append)

lemma keep_True: "keep True recs = List.filter (\<lambda>kv. snd kv \<noteq> TOMBSTONE) recs"
  by (simp add: keep_def)

lemma keep_False: "keep False recs = recs"
  by (simp add: keep_def)

text \<open>
  One compaction of tier \<open>i\<close>, whose runs are sorted: the new file of tier \<open>i + 1\<close> holds the
  merged records, without the tombstones exactly when \<open>i\<close> was the last entry of
  \<open>levels_main\<close> before the call, that is when \<open>get_folder(i + 1)\<close> creates tier \<open>i + 1\<close>.
\<close>

lemma compact_step_new_file:
  assumes i: "0 < i" "i < length (levels_main db)"
    and files: "tier_files db i = Some (map (\<lambda>r. sst r (n r)) runs)"
    and sorted: "\<forall>r \<in> set runs. sorted_wrt (<) (map fst r)"
  shows "\<exists>db'. compact_step h i db = Some db' \<and>
           last_tier db' = (if Suc i = length (levels_main db) then Suc i else last_tier db) \<and>
           new_run (Suc i) db' = Some (keep (Suc i = length (levels_main db)) (merged (map visible runs))) \<and>
           final_count (Suc i) db' =
             Some (2 * length (keep (Suc i = length (levels_main db)) (merged (map visible runs))))"
proof -
  let ?last = "Suc i = length (levels_main db)"
  let ?db1 = "get_folder (Suc i) db"
  let ?out = "keep ?last (merged (map visible runs))"
  have l: "(int i = int (length (levels_main db)) - 1) \<longleftrightarrow> ?last" using i by auto
  have g: "get_folder i db = db" using i by (simp add: get_folder_def)
  have f1: "tier_files ?db1 i = Some (map (\<lambda>r. sst r (n r)) runs)"
    using files i by (simp add: tier_files_get_folder)
  have len1: "Suc i < length (levels_main ?db1)"
    using i by (auto simp: get_folder_def)
  have len1': "length (levels_main ?db1) = (if ?last then Suc (Suc i) else length (levels_main db))"
    using i by (auto simp: get_folder_def)
  define f where "f = sst ?out (2 * length ?out)"
  define t where "t = fold add (map fst ?out) (BloomFilter_new h)"
  have m': "merge (map (\<lambda>r. sst r (n r)) runs) (BloomFilter_new h) ?last = Some (f, t)"
    using merge_sorted_runs[OF sorted, of n "BloomFilter_new h" ?last] by (simp add: f_def t_def)
  define db2 where "db2 = ?db1\<lparr>tiers := (tiers ?db1)(Suc i := (tiers ?db1 (Suc i))(Temp := Some f))\<rparr>"
  define db3 where "db3 = db2\<lparr>tiers := (tiers db2)(i := remove_runs (levels_main db2 ! i) (tiers db2 i)),
                               filters := (filters db2)[i := []],
                               levels_main := (levels_main db2)[i := 0]\<rparr>"
  define db4 where "db4 = db3\<lparr>filters := (filters db3)[Suc i := filters db3 ! Suc i @ [t]]\<rparr>"
  have cs: "compact_step h i db = Some (Rename (Suc i) db4)"
    using i unfolding compact_step_def l g Let_def
    by (simp add: f1 m' db2_def db3_def db4_def del: get_folder_def)
  have t4: "tiers db4 (Suc i) Temp = Some f"
    by (simp add: db4_def db3_def db2_def del: get_folder_def)
  have l4: "length (levels_main db4) = length (levels_main ?db1)"
    by (simp add: db4_def db3_def db2_def del: get_folder_def)
  have r: "tiers (Rename (Suc i) db4) (Suc i) (Run (levels_main (Rename (Suc i) db4) ! Suc i)) = Some f"
    using len1 l4 t4 by (simp add: Rename_def Let_def)
  have lt: "last_tier (Rename (Suc i) db4) = (if ?last then Suc i else last_tier db)"
    using l4 len1' by (simp add: last_tier_def Rename_def Let_def)
  show ?thesis
    using cs r lt by (simp add: new_run_def final_count_def f_def)
qed

lemma upt_0_4: "[0..<4] = [0, 1, 2, 3]"
  by code_simp

lemma tier_files_one: "tier_files one_tier_db 1 = Some (map (\<lambda>r. sst r (length r)) tier1_runs)"
  by (simp add: tier_files_def one_tier_db_def fresh_db_def tier1_dir_def tier1_runs_def flush_table_eq
      upt_0_4)

lemma tier_files_two: "tier_files two_tier_db 1 = Some (map (\<lambda>r. sst r (length r)) tier1_runs)"
  by (simp add: tier_files_def two_tier_db_def fresh_db_def tier1_dir_def tier1_runs_def flush_table_eq
      upt_0_4)

lemma sorted_tier1: "\<forall>r \<in> set tier1_runs. sorted_wrt (<) (map fst r)"
  by (simp add: tier1_runs_def)

lemma merged_tier1: "merged (map visible tier1_runs) = [(''a'', TOMBSTONE), (''b'', ''x''), (''c'', ''y'')]"
  by code_simp

text \<open>
  C3. The compaction of a tier 1 with four runs writes a file with the two records
  \<open>(b, x)\<close> and \<open>(c, y)\<close>, and the last entry of its metadata is 4: \<open>merge\<close> increments \<open>count\<close>
  before it calls \<open>Write\<close> and \<open>Write\<close> increments it again.
\<close>

theorem compaction_writes_twice_the_count:
  "Option.bind (compact_step example_hash 1 one_tier_db) (new_run 2) = Some [(''b'', ''x''), (''c'', ''y'')] \<and>
   Option.bind (compact_step example_hash 1 one_tier_db) (final_count 2) = Some 4"
proof -
  have i: "0 < (1::nat)" "1 < length (levels_main one_tier_db)"
    by (simp_all add: one_tier_db_def)
  have l: "Suc 1 = length (levels_main one_tier_db)" by (simp add: one_tier_db_def)
  have k: "keep True (merged (map visible tier1_runs)) = [(''b'', ''x''), (''c'', ''y'')]"
    by (simp add: merged_tier1 keep_def TOMBSTONE_def)
  from compact_step_new_file[OF i tier_files_one sorted_tier1, of example_hash]
  show ?thesis
    using l k by (auto simp: eval_nat_numeral)
qed

text \<open>
  C4. A compaction of tier \<open>i\<close>, whose runs are sorted, drops the records whose value is
  \<open>TOMBSTONE\<close> when tier \<open>i + 1\<close> is created by the compaction, and so is the last tier with
  nothing older below the new file; it keeps every record of the merge in every other
  compaction, also when tier \<open>i + 1\<close> exists already and is the last tier.
\<close>

theorem compaction_tombstones:
  assumes "0 < i" and "i < length (levels_main db)"
    and "tier_files db i = Some (map (\<lambda>r. sst r (n r)) runs)"
    and "\<forall>r \<in> set runs. sorted_wrt (<) (map fst r)"
  shows "\<exists>db'. compact_step h i db = Some db' \<and>
           (Suc i = length (levels_main db) \<longrightarrow>
              new_run (Suc i) db' =
                Some (List.filter (\<lambda>kv. snd kv \<noteq> TOMBSTONE) (merged (map visible runs)))) \<and>
           (Suc i < length (levels_main db) \<longrightarrow>
              new_run (Suc i) db' = Some (merged (map visible runs)))"
  using compact_step_new_file[OF assms, of h]
  by (auto simp: keep_True keep_False)

text \<open>
  C4 on the two example states: the tombstone of \<open>a\<close> is dropped when tier 2 is created by
  the compaction, and kept when tier 2 was there and is the last tier.
\<close>

theorem compaction_tombstones_witness:
  "0 < (1::nat) \<and> 1 < length (levels_main one_tier_db) \<and> 1 < length (levels_main two_tier_db) \<and>
   tier_files one_tier_db 1 = Some (map (\<lambda>r. sst r (length r)) tier1_runs) \<and>
   tier_files two_tier_db 1 = Some (map (\<lambda>r. sst r (length r)) tier1_runs) \<and>
   list_all (\<lambda>r. sorted_wrt (<) (map fst r)) tier1_runs \<and>
   Suc 1 = length (levels_main one_tier_db) \<and> Suc 1 < length (levels_main two_tier_db) \<and>
   Option.bind (compact_step example_hash 1 one_tier_db) (new_run 2) =
     Some [(''b'', ''x''), (''c'', ''y'')] \<and>
   Option.bind (compact_step example_hash 1 two_tier_db) (new_run 2) =
     Some [(''a'', TOMBSTONE), (''b'', ''x''), (''c'', ''y'')]"
proof -
  have i1: "0 < (1::nat)" "1 < length (levels_main one_tier_db)"
    by (simp_all add: one_tier_db_def)
  have i2: "1 < length (levels_main two_tier_db)"
    by (simp_all add: two_tier_db_def)
  have l1: "Suc 1 = length (levels_main one_tier_db)" by (simp add: one_tier_db_def)
  have l2: "Suc 1 < length (levels_main two_tier_db)" by (simp add: two_tier_db_def)
  have k: "List.filter (\<lambda>kv. snd kv \<noteq> TOMBSTONE) (merged (map visible tier1_runs)) = [(''b'', ''x''), (''c'', ''y'')]"
    by (simp add: merged_tier1 TOMBSTONE_def)
  from compaction_tombstones[OF i1 tier_files_one sorted_tier1, of example_hash] l1
  have a: "Option.bind (compact_step example_hash 1 one_tier_db) (new_run 2) = Some [(''b'', ''x''), (''c'', ''y'')]"
    using k by (auto simp: eval_nat_numeral)
  from compaction_tombstones[OF i1(1) i2 tier_files_two sorted_tier1, of example_hash] l2
  have b: "Option.bind (compact_step example_hash 1 two_tier_db) (new_run 2) =
     Some [(''a'', TOMBSTONE), (''b'', ''x''), (''c'', ''y'')]"
    by (auto simp: merged_tier1 eval_nat_numeral)
  from i1 i2 l1 l2 a b tier_files_one tier_files_two sorted_tier1 show ?thesis
    by (simp add: list_all_iff)
qed

text \<open>
  A search that runs past the records. On the file with the records \<open>(b, x)\<close> and \<open>(c, y)\<close>
  and the count 4, the search for \<open>d\<close> probes the entry 2: the read of the metadata comes
  short and leaves \<open>idx\<close> with 4, 4 and the 4 of the probe before; the streams do nothing
  from then on, the probed key is the empty string, and the search returns false.
\<close>

lemma binary_search_after_short_read:
  "binary_search ''bxcy'' [0, 1, 2, 3, 4, 4] 0 3 ''d'' ([0, 0, 0], False) (0, False) [] = Inr (False, [])"
  by (simp add: binary_search.simps to_long_long_def find_idx_def to_int_def size_t_sub_def
      resize_def string_max_size_def seekg_def read_bytes_def Let_def)

text \<open>
  A read after a compaction. The file that the compaction of \<open>crowded_db\<close> writes holds
  one record and 3 bytes, and its metadata ends with 2. A search of that file for a key
  above the one it holds probes a second entry: the read of the metadata comes short,
  \<open>idx[1] - idx[0]\<close> is \<open>2 - 3\<close> as \<open>size_t\<close>, and \<open>value.resize\<close> throws. So \<open>GET(z)\<close> does not
  return, although the older file of tier 2 holds \<open>z\<close>.
\<close>

lemma compacted_db_eq: "compact_step example_hash 1 crowded_db = Some compacted_db"
  by (simp add: compact_step_def crowded_db_def compacted_db_def fresh_db_def tier_files_def upt_0_4
      get_folder_def Rename_def merge_eval t0_def fun_eq_iff eval_nat_numeral)

lemma contains_same_length:
  "length k = length k' \<Longrightarrow> contains k (add k' (BloomFilter_new example_hash))"
  by (simp add: contains_iff bitArray_add slot_def example_hash_def BloomFilter_new_def)

lemma get_throws_after_compaction:
  "compact_step example_hash 1 crowded_db = Some compacted_db \<and>
   Find 2 1 ''z'' [] compacted_db = Inr (True, ''v'') \<and>
   GET ''z'' compacted_db = Inl LengthError"
proof -
  have c: "\<not> contains ''z'' t0" by (simp add: t0_def contains_new)
  have d: "contains ''z'' (add ''a'' t0)" by (simp add: t0_def contains_same_length)
  have 1: "Find 2 1 ''z'' [] compacted_db = Inr (True, ''v'')"
    by (simp add: Find_def compacted_db_def fresh_db_def binary_search.simps to_long_long_def
        find_idx_def to_int_def size_t_sub_def resize_def string_max_size_def seekg_def
        read_bytes_def Let_def)
  have 2: "Find 2 2 ''z'' [] compacted_db = Inl LengthError"
    by (simp add: Find_def compacted_db_def fresh_db_def binary_search.simps to_long_long_def
        find_idx_def to_int_def size_t_sub_def resize_def string_max_size_def seekg_def
        read_bytes_def Let_def)
  have 3: "GET ''z'' compacted_db = Inl LengthError"
    using c d 2 by (simp add: GET_def compacted_db_def fresh_db_def upt_rec[of 1] upt_rec[of 2] upt_rec[of 3] eval_nat_numeral)
  from compacted_db_eq 1 3 show ?thesis by simp
qed

section \<open>Replaying the logs at start-up\<close>

lemma inserted_simps [simp]:
  "inserted [] m = m"
  "inserted ((k, v) # w) m = inserted w (map_assign k v m)"
  by (simp_all add: inserted_def)

lemma total_bytes_simps [simp]:
  "total_bytes [] = 0"
  "total_bytes ((k, v) # w) = length k + length v + total_bytes w"
  by (simp_all add: total_bytes_def)

lemma total_bytes_append [simp]: "total_bytes (w1 @ w2) = total_bytes w1 + total_bytes w2"
  by (simp add: total_bytes_def)

lemma inserted_append [simp]: "inserted (w1 @ w2) m = inserted w2 (inserted w1 m)"
  by (simp add: inserted_def)

lemma map_of_inserted:
  "map_of (inserted w m) k = (case map_of (rev w) k of Some v \<Rightarrow> Some v | None \<Rightarrow> map_of m k)"
proof (induction w arbitrary: m)
  case Nil
  then show ?case by simp
next
  case (Cons kv w)
  obtain a b where kv: "kv = (a, b)" by (cases kv)
  show ?case
    by (auto simp: kv Cons.IH map_of_map_assign map_add_def map_of_append split: option.splits)
qed

lemma sorted_inserted:
  "sorted_wrt (<) (map fst m) \<Longrightarrow> sorted_wrt (<) (map fst (inserted w m))"
  by (induction w arbitrary: m) (auto simp: sorted_map_assign)

lemma replay_eq:
  assumes "filters db = (fa # fb) # fs"
  shows "replay w db =
           db\<lparr>mem_size := mem_size db + total_bytes w,
               write_memtable := inserted w (write_memtable db),
               filters := (fold add (map fst w) fa # fb) # fs\<rparr>"
  using assms
proof (induction w arbitrary: db fa)
  case Nil
  then show ?case by simp
next
  case (Cons kv w)
  obtain k v where kv: "kv = (k, v)" by (cases kv)
  let ?db1 = "db\<lparr>mem_size := mem_size db + length k + length v,
            write_memtable := map_assign k v (write_memtable db),
            filters := (filters db)[0 := (filters db ! 0)[0 := add k (filters db ! 0 ! 0)]]\<rparr>"
  have f1: "filters ?db1 = (add k fa # fb) # fs" using Cons.prems by simp
  show ?case
    unfolding kv replay.simps Cons.IH[OF f1] by (simp add: add.assoc)
qed

lemma initializer_helper_eq:
  assumes "logs db (WAL db) = Some w" and "filters db = (fa # fb) # fs"
  shows "initializer_helper db =
           (if MAX_bytes \<le> mem_size db + total_bytes w
            then await_flush
                   (db\<lparr>mem_size := mem_size db + total_bytes w,
                       write_memtable := inserted w (write_memtable db),
                       filters := (fold add (map fst w) fa # fb) # fs,
                       wal := Some (WAL db),
                       logs := (logs db)(WAL db := Some [])\<rparr>)
            else Some (db\<lparr>mem_size := mem_size db + total_bytes w,
                       write_memtable := inserted w (write_memtable db),
                       filters := (fold add (map fst w) fa # fb) # fs,
                       wal := Some (WAL db),
                       logs := (logs db)(WAL db := Some [])\<rparr>))"
  using assms by (simp add: initializer_helper_def replay_eq Let_def)

text \<open>
  C7. The constructor finds \<open>WAL_temp.bin\<close> with the records \<open>w1\<close> and \<open>WAL.bin\<close> with the
  records \<open>w2\<close>. \<open>WAL.bin\<close> is renamed to \<open>WAL_temp1.bin\<close>, and \<open>initialize_memtable\<close> returns
  after it has replayed \<open>w1\<close> and then \<open>w2\<close> into the active table and its filter, a later
  record of a key replacing an earlier one. When the bytes replayed stay below \<open>MAX\<close> no
  flush is started. When they reach \<open>MAX\<close>, after the first log or after the second, the
  flusher has swapped the tables before \<open>initialize_memtable\<close> returns: the records
  replayed so far are in the frozen table (or, when both logs reach \<open>MAX\<close>, those of the
  first are in a file of tier 1 and those of the second in the frozen table).
\<close>

theorem startup_replays_both_logs:
  assumes w1: "logs db WAL_temp_bin = Some w1" and w2: "logs db WAL_bin = Some w2"
    and fresh: "write_memtable db = []" "read_memtable db = []" "mem_size db = 0"
      "\<not> flushrunning db" "\<not> ifread_memtable db"
    and f: "filters db = [fa, fb] # fs" and lv: "levels_main db \<noteq> []"
  shows "\<exists>db1 db'.
           stage_logs db = (db1, WAL_temp1_bin) \<and>
           logs db1 WAL_temp_bin = Some w1 \<and> logs db1 WAL_temp1_bin = Some w2 \<and> logs db1 WAL_bin = None \<and>
           initialize_memtable db = Some db' \<and>
           (total_bytes w1 < MAX_bytes \<and> total_bytes w1 + total_bytes w2 < MAX_bytes \<longrightarrow>
              \<not> ifread_memtable db' \<and> \<not> flushrunning db' \<and>
              write_memtable db' = inserted (w1 @ w2) [] \<and>
              filters db' ! 0 ! 0 = fold add (map fst (w1 @ w2)) fa \<and>
              mem_size db' = total_bytes w1 + total_bytes w2) \<and>
           (total_bytes w1 < MAX_bytes \<and> MAX_bytes \<le> total_bytes w1 + total_bytes w2 \<longrightarrow>
              ifread_memtable db' \<and> \<not> flushrunning db' \<and>
              read_memtable db' = inserted (w1 @ w2) [] \<and>
              filters db' ! 0 ! 1 = fold add (map fst (w1 @ w2)) fa \<and>
              write_memtable db' = []) \<and>
           (MAX_bytes \<le> total_bytes w1 \<and> total_bytes w2 < MAX_bytes \<longrightarrow>
              ifread_memtable db' \<and> \<not> flushrunning db' \<and>
              read_memtable db' = inserted w1 [] \<and>
              filters db' ! 0 ! 1 = fold add (map fst w1) fa \<and>
              write_memtable db' = inserted w2 [] \<and>
              filters db' ! 0 ! 0 = fold add (map fst w2) fb) \<and>
           (MAX_bytes \<le> total_bytes w1 \<and> MAX_bytes \<le> total_bytes w2 \<longrightarrow>
              ifread_memtable db' \<and> \<not> flushrunning db' \<and>
              new_run 1 db' = Some (inserted w1 []) \<and>
              read_memtable db' = inserted w2 [] \<and>
              filters db' ! 0 ! 1 = fold add (map fst w2) fb \<and>
              write_memtable db' = [])"
proof -
  define L1 where "L1 = ((logs db)(WAL_bin := None))(WAL_temp1_bin := Some w2)"
  define db1 where "db1 = db\<lparr>WAL := WAL_temp_bin, logs := L1\<rparr>"
  have st: "stage_logs db = (db1, WAL_temp1_bin)"
    using w1 w2 by (simp add: stage_logs_def Let_def db1_def L1_def)
  have l1: "logs db1 WAL_temp_bin = Some w1" "logs db1 WAL_temp1_bin = Some w2" "logs db1 WAL_bin = None"
    using w1 by (simp_all add: db1_def L1_def)
  have h1: "logs db1 (WAL db1) = Some w1" "filters db1 = (fa # [fb]) # fs"
    using w1 f by (simp_all add: db1_def L1_def)
  note H1 = initializer_helper_eq[OF h1]
  have fr1: "write_memtable db1 = []" "read_memtable db1 = []" "mem_size db1 = 0"
    "\<not> flushrunning db1" "\<not> ifread_memtable db1" "WAL db1 = WAL_temp_bin" "logs db1 = L1"
    using fresh by (simp_all add: db1_def)
  show ?thesis
  proof (cases "MAX_bytes \<le> total_bytes w1")
    case False
    define dA where "dA = db1\<lparr>mem_size := total_bytes w1, write_memtable := inserted w1 [],
        filters := (fold add (map fst w1) fa # [fb]) # fs,
        wal := Some WAL_temp_bin, logs := L1(WAL_temp_bin := Some [])\<rparr>"
    have hA: "initializer_helper db1 = Some dA"
      using False by (simp add: H1 fr1 dA_def)
    define db3 where "db3 = dA\<lparr>wal := None, WAL := WAL_bin,
        logs := ((logs dA)(WAL_temp1_bin := None))(WAL_bin := Some w2)\<rparr>"
    have lA: "logs dA WAL_temp1_bin = Some w2" "logs dA WAL_bin = None"
      by (simp_all add: dA_def L1_def)
    have im: "initialize_memtable db = initializer_helper db3"
      unfolding initialize_memtable_def st
      by (simp add: l1 hA Let_def lA db3_def)
    have h3: "logs db3 (WAL db3) = Some w2" "filters db3 = (fold add (map fst w1) fa # [fb]) # fs"
      by (simp_all add: db3_def dA_def)
    note H3 = initializer_helper_eq[OF h3]
    have fr3: "write_memtable db3 = inserted w1 []" "read_memtable db3 = []" "mem_size db3 = total_bytes w1"
      "\<not> flushrunning db3" "\<not> ifread_memtable db3" "WAL db3 = WAL_bin"
      by (simp_all add: db3_def dA_def fr1)
    show ?thesis
    proof (cases "MAX_bytes \<le> total_bytes w1 + total_bytes w2")
      case False
      with \<open>\<not> MAX_bytes \<le> total_bytes w1\<close> show ?thesis
        by (simp add: st l1 im H3 fr3)
    next
      case True
      with \<open>\<not> MAX_bytes \<le> total_bytes w1\<close> show ?thesis
        by (simp add: st l1 im H3 fr3 await_flush_def flush_begin_def Let_def)
    qed
  next
    case True
    define dA where "dA = db1\<lparr>mem_size := 0, write_memtable := [], read_memtable := inserted w1 [],
        filters := (fb # [fold add (map fst w1) fa]) # fs,
        wal := Some WAL_bin, logs := L1(WAL_temp_bin := Some [], WAL_bin := Some []),
        ifread_memtable := True, flushrunning := False\<rparr>"
    have hA: "initializer_helper db1 = Some dA"
      using True by (simp add: H1 fr1 await_flush_def flush_begin_def Let_def dA_def)
    define db3 where "db3 = dA\<lparr>wal := None, WAL := WAL_bin,
        logs := ((logs dA)(WAL_temp1_bin := None))(WAL_bin := Some w2)\<rparr>"
    have lA: "logs dA WAL_temp1_bin = Some w2"
      by (simp_all add: dA_def L1_def)
    have im: "initialize_memtable db = initializer_helper db3"
      unfolding initialize_memtable_def st
      by (simp add: l1 hA Let_def lA db3_def)
    have h3: "logs db3 (WAL db3) = Some w2" "filters db3 = (fb # [fold add (map fst w1) fa]) # fs"
      by (simp_all add: db3_def dA_def)
    note H3 = initializer_helper_eq[OF h3]
    have fr3: "write_memtable db3 = []" "read_memtable db3 = inserted w1 []" "mem_size db3 = 0"
      "\<not> flushrunning db3" "ifread_memtable db3" "WAL db3 = WAL_bin"
      by (simp_all add: db3_def dA_def fr1)
    have lv3: "length (levels_main db3) = Suc 0 \<or> Suc 0 < length (levels_main db3)"
      using lv by (cases "levels_main db") (auto simp: db3_def dA_def db1_def)
    show ?thesis
    proof (cases "MAX_bytes \<le> total_bytes w2")
      case False
      with \<open>MAX_bytes \<le> total_bytes w1\<close> show ?thesis
        by (simp add: st l1 im H3 fr3)
    next
      case True
      with \<open>MAX_bytes \<le> total_bytes w1\<close> lv3 show ?thesis
        by (auto simp: st l1 im H3 fr3 await_flush_def flush_begin_def flush_finish_def Let_def
              get_folder_def Rename_def new_run_def nth_append)
    qed
  qed
qed

text \<open>
  C7 on two examples: two short logs, where the value of \<open>k\<close> in \<open>WAL.bin\<close> replaces the one
  in \<open>WAL_temp.bin\<close>, and two logs that together reach \<open>MAX\<close>, where the flush is started.
\<close>

theorem startup_replays_both_logs_witness:
  "logs crash_db WAL_temp_bin = Some [(''k'', ''1''), (''a'', ''x'')] \<and>
   logs crash_db WAL_bin = Some [(''k'', ''2'')] \<and>
   map_option write_memtable (initialize_memtable crash_db) = Some [(''a'', ''x''), (''k'', ''2'')] \<and>
   map_option mem_size (initialize_memtable crash_db) = Some 6 \<and>
   map_option ifread_memtable (initialize_memtable crash_db) = Some False \<and>
   logs full_db WAL_temp_bin = Some [(''k'', ''1'')] \<and>
   logs full_db WAL_bin = Some [(''big'', filler), (''k'', ''2222222'')] \<and>
   map_option ifread_memtable (initialize_memtable full_db) = Some True \<and>
   map_option read_memtable (initialize_memtable full_db) = Some [(''big'', filler), (''k'', ''2222222'')] \<and>
   map_option write_memtable (initialize_memtable full_db) = Some []"
proof -
  have c: "logs crash_db WAL_temp_bin = Some [(''k'', ''1''), (''a'', ''x'')]"
    "logs crash_db WAL_bin = Some [(''k'', ''2'')]"
    "write_memtable crash_db = []" "read_memtable crash_db = []" "mem_size crash_db = 0"
    "\<not> flushrunning crash_db" "\<not> ifread_memtable crash_db"
    "filters crash_db = [BloomFilter_new example_hash, BloomFilter_new example_hash] # []"
    "levels_main crash_db \<noteq> []"
    by (simp_all add: crash_db_def Database_fields_def)
  have f: "logs full_db WAL_temp_bin = Some [(''k'', ''1'')]"
    "logs full_db WAL_bin = Some [(''big'', filler), (''k'', ''2222222'')]"
    "write_memtable full_db = []" "read_memtable full_db = []" "mem_size full_db = 0"
    "\<not> flushrunning full_db" "\<not> ifread_memtable full_db"
    "filters full_db = [BloomFilter_new example_hash, BloomFilter_new example_hash] # []"
    "levels_main full_db \<noteq> []"
    by (simp_all add: full_db_def Database_fields_def)
  from startup_replays_both_logs[OF c]
  have 1: "map_option write_memtable (initialize_memtable crash_db) = Some [(''a'', ''x''), (''k'', ''2'')] \<and>
   map_option mem_size (initialize_memtable crash_db) = Some 6 \<and>
   map_option ifread_memtable (initialize_memtable crash_db) = Some False"
    by (auto simp: MAX_bytes_def)
  from startup_replays_both_logs[OF f]
  have 2: "map_option ifread_memtable (initialize_memtable full_db) = Some True \<and>
   map_option read_memtable (initialize_memtable full_db) = Some [(''big'', filler), (''k'', ''2222222'')] \<and>
   map_option write_memtable (initialize_memtable full_db) = Some []"
    by (auto simp: MAX_bytes_def length_filler)
  from c(1,2) f(1,2) 1 2 show ?thesis by simp
qed

end
